theory Spec2Isabelle
  imports Main "HOL-Library.Word"
begin

unbundle bit_operations_syntax

section \<open>The bus1 transaction engine (ipc/bus1/transaction.c)\<close>

text \<open>
  A shallow embedding of \<^verbatim>\<open>ipc/bus1/transaction.c\<close>. Kernel objects live in an explicit
  state: the peers (queue clock and dropped-counter), the messages (slice, queue node,
  header), the sender's user memory, and the transaction object of the running send.
  Every call that leaves the file (queue, pool, handle, peer, file and user-copy
  primitives) appends one event to a chronological log, so that the order in which the
  code performs its steps is a property of the final state. An event carries the
  arguments of the call and, where the caller branches on it, the value returned
  (the new clock of a tick, whether a stage or a remove changed the front of the queue,
  whether a store to user memory faulted). \<open>Consume\<close> marks a call of
  \<^verbatim>\<open>bus1_transaction_consume\<close> with its arguments.

  Pointers are natural numbers with \<open>0\<close> for \<^verbatim>\<open>NULL\<close>. Return codes are integers,
  negative for errors. The lockdep annotations (\<^verbatim>\<open>bus1_active_lockdep_acquired\<close> and
  \<^verbatim>\<open>bus1_active_lockdep_released\<close>) have no effect and are left out, as is the
  translation of the sender's uid, gid, pid and tid into the message header.
\<close>

subsection \<open>Data model\<close>

type_synonym u64 = "64 word"
type_synonym peer_id = nat
type_synonym msg_id = nat
type_synonym uptr = nat
type_synonym file_id = nat

definition EFAULT :: int where "EFAULT = 14"
definition EHOSTUNREACH :: int where "EHOSTUNREACH = 113"
definition ENOMEM :: int where "ENOMEM = 12"

text \<open>\<^verbatim>\<open>struct bus1_handle_dest\<close>: the resolved destination peer, the user pointer the
  destination-local id is written to, and the handle it was resolved from.\<close>

record bus1_handle_dest =
  raw_peer :: peer_id
  idp :: uptr
  hnd :: u64

text \<open>What \<^verbatim>\<open>bus1_handle_dest_init\<close> and the literal \<^verbatim>\<open>(struct bus1_handle_dest){}\<close>
  leave: all fields zero.\<close>

definition bus1_handle_dest_init :: bus1_handle_dest where
  "bus1_handle_dest_init = \<lparr>raw_peer = 0, idp = 0, hnd = 0\<rparr>"

text \<open>\<^verbatim>\<open>struct bus1_message\<close>, the fields this file reads and writes: whether a pool
  slice is attached (\<^verbatim>\<open>message->slice\<close>), the queue node (\<open>None\<close> when the node is
  linked on no queue, otherwise the queue's peer and the node's timestamp) and
  \<^verbatim>\<open>data.destination\<close>. The \<^verbatim>\<open>transaction.next\<close> and \<^verbatim>\<open>transaction.dest\<close> links are
  the list \<open>entries\<close> of the transaction.\<close>

record bus1_message =
  slice :: bool
  qnode :: "(peer_id \<times> u64) option"
  destination :: u64

text \<open>\<^verbatim>\<open>struct bus1_peer_info\<close>: the clock of its queue and the atomic counter
  \<^verbatim>\<open>n_dropped\<close> (an \<^verbatim>\<open>atomic_t\<close>, 32 bits, wrapping).\<close>

record bus1_peer_info =
  queue_clock :: u64
  n_dropped :: "32 word"

text \<open>\<^verbatim>\<open>struct bus1_cmd_send\<close>, the fields this file reads.\<close>

record bus1_cmd_send =
  flags :: u64
  n_vecs :: nat
  n_fds :: nat
  n_handles :: nat

text \<open>\<^verbatim>\<open>struct bus1_transaction\<close>. \<open>files\<close> is the memory of the \<^verbatim>\<open>files\<close> array, slot by
  slot (the code reads slots below \<^verbatim>\<open>n_fds\<close> only); \<open>entries\<close> is the linked list
  \<^verbatim>\<open>transaction->entries\<close>, head first.\<close>

record bus1_transaction =
  peer :: peer_id
  param :: bus1_cmd_send
  files :: "nat \<Rightarrow> file_id"
  length_vecs :: nat
  entries :: "(msg_id \<times> bus1_handle_dest) list"

datatype event =
    MutexLock peer_id
  | MutexUnlock peer_id
  | QueueTick peer_id u64
  | QueueSync peer_id u64
  | QueueStage peer_id msg_id u64 bool
  | QueueRemove peer_id msg_id bool
  | PeerWake peer_id
  | Consume msg_id bus1_handle_dest u64
  | HandleInstall msg_id peer_id
  | HandleExport bus1_handle_dest peer_id u64
  | PutUser uptr u64 bool
  | DroppedInc peer_id
  | DestImport uptr
  | DestDestroy bus1_handle_dest
  | MessageNew msg_id bool
  | MessageAllocate msg_id peer_id
  | MessageDeallocate msg_id peer_id
  | MessageFree "msg_id option" peer_id
  | PoolWrite msg_id peer_id
  | InflightInstantiate msg_id peer_id
  | GetFile file_id
  | Fput file_id
  | ImportVecs
  | ImportFd nat
  | TransferInit nat
  | TransferImport
  | TransferDestroy
  | Kfree nat

record state =
  txn :: bus1_transaction
  peers :: "peer_id \<Rightarrow> bus1_peer_info"
  msgs :: "msg_id \<Rightarrow> bus1_message"
  umem :: "uptr \<Rightarrow> u64 option"
  trace :: "event list"

text \<open>What this file takes from headers and helpers that are not part of it, as
  parameters: the constants of \<^verbatim>\<open>uapi/linux/bus1.h\<close>, the sizes that enter
  \<^verbatim>\<open>bus1_transaction_size\<close>, the amount by which a tick advances a clock, and the
  values that the handle and queue subsystems return (the id that
  \<^verbatim>\<open>bus1_handle_dest_export\<close> yields, and whether \<^verbatim>\<open>bus1_queue_stage\<close> and
  \<^verbatim>\<open>bus1_queue_remove\<close> report that the front of the queue changed).\<close>

record externals =
  BUS1_HANDLE_INVALID :: u64
  BUS1_SEND_FLAG_CONTINUE :: u64
  BUS1_SEND_FLAG_SILENT :: u64
  sizeof_transaction :: nat
  sizeof_iovec :: nat
  sizeof_file_ptr :: nat
  handle_batch_inline_size :: "nat \<Rightarrow> nat"
  tick_step :: u64
  dest_export :: "state \<Rightarrow> bus1_handle_dest \<Rightarrow> peer_id \<Rightarrow> u64 \<Rightarrow> u64"
  stage_front :: "state \<Rightarrow> peer_id \<Rightarrow> msg_id \<Rightarrow> u64 \<Rightarrow> bool"
  remove_front :: "state \<Rightarrow> peer_id \<Rightarrow> msg_id \<Rightarrow> bool"

subsection \<open>Primitives of the other subsystems\<close>

definition emit :: "event \<Rightarrow> state \<Rightarrow> state" where
  "emit e s = s\<lparr>trace := trace s @ [e]\<rparr>"

definition mutex_lock :: "peer_id \<Rightarrow> state \<Rightarrow> state" where
  "mutex_lock p s = emit (MutexLock p) s"

definition mutex_unlock :: "peer_id \<Rightarrow> state \<Rightarrow> state" where
  "mutex_unlock p s = emit (MutexUnlock p) s"

definition set_clock :: "peer_id \<Rightarrow> u64 \<Rightarrow> state \<Rightarrow> state" where
  "set_clock p c s = s\<lparr>peers := (peers s)(p := (peers s p)\<lparr>queue_clock := c\<rparr>)\<rparr>"

definition set_qnode :: "msg_id \<Rightarrow> (peer_id \<times> u64) option \<Rightarrow> state \<Rightarrow> state" where
  "set_qnode m q s = s\<lparr>msgs := (msgs s)(m := (msgs s m)\<lparr>qnode := q\<rparr>)\<rparr>"

text \<open>The queue primitives live in \<^verbatim>\<open>queue.c\<close>, which is not part of this file. The
  clock is the 64-bit counter of the code; a node is linked on at most one queue, the
  one of its destination.\<close>

text \<open>Modelled from the spec: \<open>tick(q)\<close> of \<^verbatim>\<open>queue.c\<close> advances the clock of the queue and
  returns the new value. The amount is the parameter \<open>tick_step\<close>.\<close>

definition bus1_queue_tick :: "externals \<Rightarrow> peer_id \<Rightarrow> state \<Rightarrow> u64 \<times> state" where
  "bus1_queue_tick x p s =
     (let c = queue_clock (peers s p) + tick_step x
      in (c, emit (QueueTick p c) (set_clock p c s)))"

text \<open>Modelled from the spec: \<open>sync(q, t)\<close> of \<^verbatim>\<open>queue.c\<close> advances the clock to at least
  \<open>t\<close> and returns the resulting value.\<close>

definition bus1_queue_sync :: "peer_id \<Rightarrow> u64 \<Rightarrow> state \<Rightarrow> u64 \<times> state" where
  "bus1_queue_sync p ts s =
     (let c = max (queue_clock (peers s p)) ts
      in (c, emit (QueueSync p ts) (set_clock p c s)))"

text \<open>Modelled from the spec: \<open>stage(q, node, t)\<close> of \<^verbatim>\<open>queue.c\<close> inserts the node at
  logical time \<open>t\<close> (a node already linked moves there); the value returned, whether the
  front of the queue changed, is the parameter \<open>stage_front\<close>.\<close>

definition bus1_queue_stage ::
  "externals \<Rightarrow> peer_id \<Rightarrow> msg_id \<Rightarrow> u64 \<Rightarrow> state \<Rightarrow> bool \<times> state" where
  "bus1_queue_stage x p m ts s =
     (let w = stage_front x s p m ts
      in (w, emit (QueueStage p m ts w) (set_qnode m (Some (p, ts)) s)))"

text \<open>Modelled from the spec: \<open>remove(q, node)\<close> of \<^verbatim>\<open>queue.c\<close> detaches the node if it is
  still present, so the node is linked on no queue afterwards; the value returned is
  the parameter \<open>remove_front\<close>.\<close>

definition bus1_queue_remove :: "externals \<Rightarrow> peer_id \<Rightarrow> msg_id \<Rightarrow> state \<Rightarrow> bool \<times> state" where
  "bus1_queue_remove x p m s =
     (let w = remove_front x s p m
      in (w, emit (QueueRemove p m w) (set_qnode m None s)))"

text \<open>Modelled from the spec: \<^verbatim>\<open>bus1_queue_node_is_queued\<close> of \<^verbatim>\<open>queue.h\<close> tells whether the
  node is linked on a queue.\<close>

definition bus1_queue_node_is_queued :: "state \<Rightarrow> msg_id \<Rightarrow> bool" where
  "bus1_queue_node_is_queued s m = (qnode (msgs s m) \<noteq> None)"

text \<open>Modelled from the spec: a queue reset by the receiver (in \<^verbatim>\<open>queue.c\<close> and
  \<^verbatim>\<open>peer.c\<close>) unlinks every node of that peer's queue. It is not called by this file; it
  is what another thread may do to a destination between two passes of a commit.\<close>

definition bus1_queue_reset :: "peer_id \<Rightarrow> state \<Rightarrow> state" where
  "bus1_queue_reset p s =
     s\<lparr>msgs := (\<lambda>m. case qnode (msgs s m) of
                      None \<Rightarrow> msgs s m
                    | Some (q, t) \<Rightarrow> if q = p then (msgs s m)\<lparr>qnode := None\<rparr> else msgs s m)\<rparr>"

definition bus1_peer_wake :: "peer_id \<Rightarrow> state \<Rightarrow> state" where
  "bus1_peer_wake p s = emit (PeerWake p) s"

text \<open>\<^verbatim>\<open>put_user\<close>: the store faults when the address is not mapped (the result is
  \<open>True\<close>), and writes the value otherwise.\<close>

definition put_user :: "u64 \<Rightarrow> uptr \<Rightarrow> state \<Rightarrow> bool \<times> state" where
  "put_user v a s =
     (if umem s a = None then (True, emit (PutUser a v True) s)
      else (False, emit (PutUser a v False) (s\<lparr>umem := (umem s)(a \<mapsto> v)\<rparr>)))"

text \<open>\<^verbatim>\<open>atomic_inc_return(&peer_info->n_dropped)\<close>.\<close>

definition atomic_inc_return_n_dropped :: "peer_id \<Rightarrow> state \<Rightarrow> 32 word \<times> state" where
  "atomic_inc_return_n_dropped p s =
     (let n = n_dropped (peers s p) + 1
      in (n, emit (DroppedInc p) (s\<lparr>peers := (peers s)(p := (peers s p)\<lparr>n_dropped := n\<rparr>)\<rparr>)))"

definition bus1_handle_inflight_install :: "msg_id \<Rightarrow> peer_id \<Rightarrow> state \<Rightarrow> state" where
  "bus1_handle_inflight_install m p s = emit (HandleInstall m p) s"

definition bus1_handle_dest_export ::
  "externals \<Rightarrow> bus1_handle_dest \<Rightarrow> peer_id \<Rightarrow> u64 \<Rightarrow> state \<Rightarrow> u64 \<times> state" where
  "bus1_handle_dest_export x d p ts s = (dest_export x s d p ts, emit (HandleExport d p ts) s)"

definition bus1_handle_dest_destroy :: "bus1_handle_dest \<Rightarrow> state \<Rightarrow> state" where
  "bus1_handle_dest_destroy d s = emit (DestDestroy d) s"

text \<open>Modelled from the spec: \<^verbatim>\<open>bus1_message_deallocate\<close> of \<^verbatim>\<open>message.c\<close> releases the
  slice of the message.\<close>

definition bus1_message_deallocate :: "msg_id \<Rightarrow> peer_id \<Rightarrow> state \<Rightarrow> state" where
  "bus1_message_deallocate m p s =
     emit (MessageDeallocate m p) (s\<lparr>msgs := (msgs s)(m := (msgs s m)\<lparr>slice := False\<rparr>)\<rparr>)"

text \<open>Modelled from the spec: \<^verbatim>\<open>bus1_message_free\<close> of \<^verbatim>\<open>message.c\<close> releases the message
  object; \<open>None\<close> is the call with \<^verbatim>\<open>NULL\<close>.\<close>

definition bus1_message_free :: "msg_id option \<Rightarrow> peer_id \<Rightarrow> state \<Rightarrow> state" where
  "bus1_message_free m p s = emit (MessageFree m p) s"

subsection \<open>bus1\_transaction\_consume\<close>

text \<open>Lines 401-405 and 412-415: with \<^verbatim>\<open>timestamp == 0\<close> the sender's clock is ticked
  under the sender's lock, and later, under the destination's lock, the destination's
  clock is synced and ticked.\<close>

definition consume_tick_sender :: "externals \<Rightarrow> u64 \<Rightarrow> state \<Rightarrow> u64 \<times> state" where
  "consume_tick_sender x timestamp s =
     (if timestamp = 0 then
        (let s1 = mutex_lock (peer (txn s)) s;
             (ts, s2) = bus1_queue_tick x (peer (txn s)) s1
         in (ts, mutex_unlock (peer (txn s)) s2))
      else (timestamp, s))"

definition consume_sync_dest :: "externals \<Rightarrow> peer_id \<Rightarrow> u64 \<Rightarrow> u64 \<Rightarrow> state \<Rightarrow> u64 \<times> state" where
  "consume_sync_dest x p timestamp ts s =
     (if timestamp = 0 then
        (let (ts1, s1) = bus1_queue_sync p ts s
         in bus1_queue_tick x p s1)
      else (ts, s))"

text \<open>Lines 396-415: everything before the test of the slice. The result is \<^verbatim>\<open>ts\<close> and
  the state, with the destination's lock held.\<close>

definition consume_enter ::
  "externals \<Rightarrow> msg_id \<Rightarrow> bus1_handle_dest \<Rightarrow> u64 \<Rightarrow> state \<Rightarrow> u64 \<times> state" where
  "consume_enter x message dest timestamp s =
     (let p = raw_peer dest;
          s0 = emit (Consume message dest timestamp) s;
          (ts0, s1) = consume_tick_sender x timestamp s0;
          s2 = bus1_handle_inflight_install message p s1;
          s3 = mutex_lock p s2
      in consume_sync_dest x p timestamp ts0 s3)"

text \<open>Lines 416-425: the result is the id and whether the write-back faulted.\<close>

definition consume_writeback ::
  "externals \<Rightarrow> msg_id \<Rightarrow> bus1_handle_dest \<Rightarrow> u64 \<Rightarrow> state \<Rightarrow> (u64 \<times> bool) \<times> state" where
  "consume_writeback x message dest ts s =
     (let p = raw_peer dest; id0 = BUS1_HANDLE_INVALID x
      in if \<not> slice (msgs s message) then
           (let (faulted, s1) = (if idp dest \<noteq> 0 then put_user id0 (idp dest) s else (False, s));
                (n, s2) = atomic_inc_return_n_dropped p s1
            in ((id0, faulted), if n = 1 then bus1_peer_wake p s2 else s2))
         else if bus1_queue_node_is_queued s message then
           (let (id1, s1) = bus1_handle_dest_export x dest p ts s;
                (faulted, s2) = (if idp dest \<noteq> 0 then put_user id1 (idp dest) s1 else (False, s1))
            in ((id1, faulted), s2))
         else ((id0, False), s))"

text \<open>Lines 426-436: the result is \<^verbatim>\<open>r\<close> and the value of \<^verbatim>\<open>message\<close> afterwards.\<close>

definition consume_link ::
  "externals \<Rightarrow> msg_id \<Rightarrow> peer_id \<Rightarrow> u64 \<Rightarrow> u64 \<Rightarrow> state \<Rightarrow> (int \<times> msg_id option) \<times> state" where
  "consume_link x message p ident ts s =
     (if ident \<noteq> BUS1_HANDLE_INVALID x then
        (let s1 = s\<lparr>msgs := (msgs s)(message := (msgs s message)\<lparr>destination := ident\<rparr>)\<rparr>;
             (w, s2) = bus1_queue_stage x p message ts s1
         in ((0, None), if w then bus1_peer_wake p s2 else s2))
      else
        (let r = (if slice (msgs s message) then - EHOSTUNREACH else 0);
             (w, s1) = bus1_queue_remove x p message s
         in ((r, Some message), bus1_message_deallocate message p s1)))"

definition bus1_transaction_consume ::
  "externals \<Rightarrow> msg_id \<Rightarrow> bus1_handle_dest \<Rightarrow> u64 \<Rightarrow> state \<Rightarrow> int \<times> state" where
  "bus1_transaction_consume x message dest timestamp s =
     (let p = raw_peer dest;
          (ts, s4) = consume_enter x message dest timestamp s;
          ((ident, faulted), s5) = consume_writeback x message dest ts s4;
          ((r, message'), s6) = consume_link x message p ident ts s5;
          s7 = mutex_unlock p s6;
          s8 = bus1_message_free message' p s7;
          s9 = bus1_handle_dest_destroy dest s8
      in (if faulted then - EFAULT else r, s9))"

subsection \<open>bus1\_transaction\_commit\<close>

text \<open>Lines 499-512, the body of the staging loop, and the loop.\<close>

definition commit_stage_entry ::
  "externals \<Rightarrow> msg_id \<Rightarrow> bus1_handle_dest \<Rightarrow> u64 \<Rightarrow> state \<Rightarrow> u64 \<times> state" where
  "commit_stage_entry x message dest timestamp s =
     (let p = raw_peer dest;
          s1 = mutex_lock p s;
          (ts1, s2) = bus1_queue_sync p timestamp s1;
          (ts2, s3) = bus1_queue_tick x p s2;
          (w, s4) = bus1_queue_stage x p message (ts2 - 1) s3;
          s5 = (if w then bus1_peer_wake p s4 else s4)
      in (ts2, mutex_unlock p s5))"

fun commit_stage_pass ::
  "externals \<Rightarrow> (msg_id \<times> bus1_handle_dest) list \<Rightarrow> u64 \<Rightarrow> state \<Rightarrow> u64 \<times> state" where
  "commit_stage_pass x [] timestamp s = (timestamp, s)"
| "commit_stage_pass x ((message, dest) # list) timestamp s =
     (let (ts, s1) = commit_stage_entry x message dest timestamp s
      in commit_stage_pass x list ts s1)"

text \<open>Lines 531-539, the body of the side-channel sync loop, and the loop.\<close>

definition commit_sync_entry :: "bus1_handle_dest \<Rightarrow> u64 \<Rightarrow> state \<Rightarrow> state" where
  "commit_sync_entry dest timestamp s =
     (let p = raw_peer dest;
          s1 = mutex_lock p s;
          (ts1, s2) = bus1_queue_sync p timestamp s1
      in mutex_unlock p s2)"

fun commit_sync_pass :: "(msg_id \<times> bus1_handle_dest) list \<Rightarrow> u64 \<Rightarrow> state \<Rightarrow> state" where
  "commit_sync_pass [] timestamp s = s"
| "commit_sync_pass ((message, dest) # list) timestamp s =
     commit_sync_pass list timestamp (commit_sync_entry dest timestamp s)"

text \<open>Lines 551-575, the commit pass, with \<^verbatim>\<open>res\<close> as accumulator.\<close>

fun commit_consume_pass ::
  "externals \<Rightarrow> (msg_id \<times> bus1_handle_dest) list \<Rightarrow> u64 \<Rightarrow> int \<Rightarrow> state \<Rightarrow> int \<times> state" where
  "commit_consume_pass x [] timestamp res s = (res, s)"
| "commit_consume_pass x ((message, dest) # list) timestamp res s =
     (let (r, s1) = bus1_transaction_consume x message dest timestamp s
      in commit_consume_pass x list timestamp (if r = - EFAULT then r else res) s1)"

text \<open>Lines 480-485: the list is taken off the transaction and the sender's clock is
  ticked under the sender's lock.\<close>

definition commit_begin :: "externals \<Rightarrow> state \<Rightarrow> u64 \<times> state" where
  "commit_begin x s =
     (let s0 = s\<lparr>txn := (txn s)\<lparr>entries := []\<rparr>\<rparr>;
          s1 = mutex_lock (peer (txn s0)) s0;
          (ts0, s2) = bus1_queue_tick x (peer (txn s0)) s1
      in (ts0, mutex_unlock (peer (txn s0)) s2))"

text \<open>Lines 480-540: everything before the commit pass. The result is the list, the
  commit timestamp (the value of \<^verbatim>\<open>timestamp\<close> after the staging pass) and the state the
  commit pass starts from (the state after the sync pass).\<close>

definition commit_prepare ::
  "externals \<Rightarrow> state \<Rightarrow> (msg_id \<times> bus1_handle_dest) list \<times> u64 \<times> state" where
  "commit_prepare x s =
     (let list = entries (txn s);
          (ts0, s3) = commit_begin x s;
          (timestamp, s4) = commit_stage_pass x list ts0 s3
      in (list, timestamp, commit_sync_pass list timestamp s4))"

definition bus1_transaction_commit :: "externals \<Rightarrow> state \<Rightarrow> int \<times> state" where
  "bus1_transaction_commit x s =
     (if entries (txn s) = [] then (0, s)
      else (let (list, timestamp, s1) = commit_prepare x s
            in commit_consume_pass x list timestamp 0 s1))"

subsection \<open>Instantiation\<close>

text \<open>What the helpers called by \<^verbatim>\<open>bus1_transaction_instantiate\<close> return in one call:
  the return code of \<^verbatim>\<open>bus1_handle_dest_import\<close> and the destination it leaves in
  \<^verbatim>\<open>*dest\<close>; the pointer \<^verbatim>\<open>bus1_message_new\<close> returns (\<open>Inl e\<close> is \<^verbatim>\<open>ERR_PTR(e)\<close>, for
  which \<^verbatim>\<open>IS_ERR\<close> holds and \<open>e\<close> is negative); and the return codes of
  \<^verbatim>\<open>bus1_message_allocate\<close>, \<^verbatim>\<open>bus1_pool_write_iovec\<close> and
  \<^verbatim>\<open>bus1_handle_inflight_instantiate\<close>.\<close>

record inst_outcome =
  o_dest_import :: int
  o_dest :: bus1_handle_dest
  o_message_new :: "int + msg_id"
  o_allocate :: int
  o_write_iovec :: int
  o_inflight_instantiate :: int

text \<open>Modelled from the spec: \<^verbatim>\<open>bus1_handle_dest_import\<close> of \<^verbatim>\<open>handle.c\<close> resolves the
  destination from the handle id it reads at \<^verbatim>\<open>idp\<close>; it writes nothing to user
  memory.\<close>

definition bus1_handle_dest_import ::
  "inst_outcome \<Rightarrow> uptr \<Rightarrow> state \<Rightarrow> (int \<times> bus1_handle_dest) \<times> state" where
  "bus1_handle_dest_import oc user_idp s =
     ((o_dest_import oc, o_dest oc), emit (DestImport user_idp) s)"

text \<open>Modelled from the spec: the new message of \<^verbatim>\<open>bus1_message_new\<close> of \<^verbatim>\<open>message.c\<close>
  (called with the silent flag of the send) has no slice, its node is linked on no
  queue, and its destination id is unset.\<close>

definition bus1_message_new :: "externals \<Rightarrow> bool \<Rightarrow> msg_id \<Rightarrow> state \<Rightarrow> state" where
  "bus1_message_new x silent m s =
     emit (MessageNew m silent)
       (s\<lparr>msgs := (msgs s)(m := \<lparr>slice = False, qnode = None,
                                   destination = BUS1_HANDLE_INVALID x\<rparr>)\<rparr>)"

text \<open>Modelled from the spec: \<^verbatim>\<open>bus1_message_allocate\<close> of \<^verbatim>\<open>message.c\<close> attaches a pool
  slice to the message when it succeeds, and none when it fails.\<close>

definition bus1_message_allocate :: "inst_outcome \<Rightarrow> msg_id \<Rightarrow> peer_id \<Rightarrow> state \<Rightarrow> int \<times> state" where
  "bus1_message_allocate oc m p s =
     (o_allocate oc,
      emit (MessageAllocate m p)
        (if o_allocate oc < 0 then s
         else s\<lparr>msgs := (msgs s)(m := (msgs s m)\<lparr>slice := True\<rparr>)\<rparr>))"

definition bus1_pool_write_iovec :: "inst_outcome \<Rightarrow> msg_id \<Rightarrow> peer_id \<Rightarrow> state \<Rightarrow> int \<times> state" where
  "bus1_pool_write_iovec oc m p s = (o_write_iovec oc, emit (PoolWrite m p) s)"

definition bus1_handle_inflight_instantiate ::
  "inst_outcome \<Rightarrow> msg_id \<Rightarrow> peer_id \<Rightarrow> state \<Rightarrow> int \<times> state" where
  "bus1_handle_inflight_instantiate oc m p s =
     (o_inflight_instantiate oc, emit (InflightInstantiate m p) s)"

text \<open>Lines 326-327: one \<^verbatim>\<open>get_file\<close> per file slot below \<^verbatim>\<open>n_fds\<close>.\<close>

fun get_files :: "nat list \<Rightarrow> state \<Rightarrow> state" where
  "get_files [] s = s"
| "get_files (i # is) s = get_files is (emit (GetFile (files (txn s) i)) s)"

text \<open>Lines 332-343, the label \<^verbatim>\<open>error\<close> when \<^verbatim>\<open>message\<close> is not \<^verbatim>\<open>NULL\<close>.\<close>

definition instantiate_error ::
  "msg_id \<Rightarrow> peer_id \<Rightarrow> int \<Rightarrow> state \<Rightarrow> (int + msg_id) \<times> state" where
  "instantiate_error m p r s =
     (let s1 = mutex_lock p s;
          s2 = bus1_message_deallocate m p s1;
          s3 = mutex_unlock p s2
      in if r < 0 then (Inl r, bus1_message_free (Some m) p s3) else (Inr m, s3))"

text \<open>Lines 305-330, after the slice has been allocated.\<close>

definition instantiate_fill ::
  "inst_outcome \<Rightarrow> msg_id \<Rightarrow> peer_id \<Rightarrow> state \<Rightarrow> (int + msg_id) \<times> state" where
  "instantiate_fill oc m p s =
     (let (r1, s1) = bus1_pool_write_iovec oc m p s
      in if r1 < 0 then instantiate_error m p r1 s1
         else
           (let (r2, s2) = bus1_handle_inflight_instantiate oc m p s1
            in if r2 < 0 then instantiate_error m p r2 s2
               else (Inr m, get_files [0..<n_fds (param (txn s2))] s2)))"

text \<open>\<^verbatim>\<open>bus1_transaction_instantiate\<close>. The result is the returned pointer (\<open>Inl r\<close> is
  \<^verbatim>\<open>ERR_PTR(r)\<close>), the content of \<^verbatim>\<open>*dest\<close> and the state. When \<^verbatim>\<open>bus1_message_new\<close>
  fails, \<^verbatim>\<open>message\<close> is \<^verbatim>\<open>NULL\<close> and \<^verbatim>\<open>r\<close> is negative at the label \<^verbatim>\<open>error\<close>.\<close>

definition bus1_transaction_instantiate ::
  "externals \<Rightarrow> inst_outcome \<Rightarrow> uptr \<Rightarrow> state \<Rightarrow> (int + msg_id) \<times> bus1_handle_dest \<times> state" where
  "bus1_transaction_instantiate x oc user_idp s =
     (let ((r, dest), s1) = bus1_handle_dest_import oc user_idp s
      in if r < 0 then (Inl r, dest, s1)
         else
           (let p = raw_peer dest
            in case o_message_new oc of
                 Inl e \<Rightarrow> (Inl e, dest, bus1_message_free None p s1)
               | Inr m \<Rightarrow>
                   (let silent = (flags (param (txn s1)) AND BUS1_SEND_FLAG_SILENT x \<noteq> 0);
                        s2 = bus1_message_new x silent m s1;
                        s3 = mutex_lock p s2;
                        (r1, s4) = bus1_message_allocate oc m p s3;
                        s5 = mutex_unlock p s4;
                        (res, s6) =
                          (if r1 < 0 then
                             instantiate_error m p
                               (if flags (param (txn s5)) AND BUS1_SEND_FLAG_CONTINUE x \<noteq> 0
                                then 0 else r1) s5
                           else instantiate_fill oc m p s5)
                    in (res, dest, s6))))"

definition bus1_transaction_instantiate_for_id ::
  "externals \<Rightarrow> inst_outcome \<Rightarrow> uptr \<Rightarrow> state \<Rightarrow> int \<times> state" where
  "bus1_transaction_instantiate_for_id x oc user_idp s =
     (let (res, dest, s1) = bus1_transaction_instantiate x oc user_idp s
      in case res of
           Inl r \<Rightarrow> (r, bus1_handle_dest_destroy dest s1)
         | Inr message \<Rightarrow>
             (0, s1\<lparr>txn := (txn s1)\<lparr>entries := (message, dest) # entries (txn s1)\<rparr>\<rparr>))"

text \<open>\<^verbatim>\<open>bus1_transaction_commit_for_id\<close>. \<^verbatim>\<open>bus1_transaction_consume\<close> has destroyed
  \<^verbatim>\<open>dest\<close> when it returns, so the call at the label \<^verbatim>\<open>exit\<close> then finds it empty.\<close>

definition bus1_transaction_commit_for_id ::
  "externals \<Rightarrow> inst_outcome \<Rightarrow> uptr \<Rightarrow> state \<Rightarrow> int \<times> state" where
  "bus1_transaction_commit_for_id x oc user_idp s =
     (let (res, dest, s1) = bus1_transaction_instantiate x oc user_idp s
      in case res of
           Inl r \<Rightarrow> (r, bus1_handle_dest_destroy dest s1)
         | Inr message \<Rightarrow>
             (let (r, s2) = bus1_transaction_consume x message dest 0 s1
              in (r, bus1_handle_dest_destroy bus1_handle_dest_init s2)))"

subsection \<open>Construction and teardown\<close>

text \<open>What the environment decides when a transaction is built: the pointer
  \<^verbatim>\<open>kmalloc\<close> returns, what the backing memory holds in the slots of the \<^verbatim>\<open>files\<close> array
  before it is initialised, and the results of the three imports
  (\<^verbatim>\<open>bus1_import_fd\<close> per descriptor, \<open>Inl e\<close> for \<^verbatim>\<open>ERR_PTR(e)\<close>).\<close>

record new_outcome =
  o_kmalloc :: nat
  o_raw_files :: "nat \<Rightarrow> file_id"
  o_import_vecs :: int
  o_length_vecs :: nat
  o_import_handles :: int
  o_import_fd :: "nat \<Rightarrow> int + file_id"

definition bus1_transaction_size :: "externals \<Rightarrow> bus1_cmd_send \<Rightarrow> nat" where
  "bus1_transaction_size x prm =
     sizeof_transaction x + n_vecs prm * sizeof_iovec x + n_fds prm * sizeof_file_ptr x +
     handle_batch_inline_size x (n_handles prm)"

text \<open>\<^verbatim>\<open>bus1_transaction_init\<close>. The \<^verbatim>\<open>memset\<close> of line 85 clears
  \<^verbatim>\<open>n_vecs * sizeof(struct file *)\<close> bytes from the start of the \<^verbatim>\<open>files\<close> array: the slots
  below \<^verbatim>\<open>n_vecs\<close>. The other slots keep what the memory held.\<close>

definition bus1_transaction_init ::
  "(nat \<Rightarrow> file_id) \<Rightarrow> peer_id \<Rightarrow> bus1_cmd_send \<Rightarrow> state \<Rightarrow> state" where
  "bus1_transaction_init raw sender prm s =
     emit (TransferInit (n_handles prm))
       (s\<lparr>txn := \<lparr>peer = sender, param = prm,
                  files = (\<lambda>i. if i < n_vecs prm then 0 else raw i),
                  length_vecs = 0, entries = []\<rparr>\<rparr>)"

text \<open>Lines 100-116, the body of the loop over the entries (\<open>list\<close> is
  \<^verbatim>\<open>message->transaction.next\<close>), and the loop.\<close>

definition destroy_entry ::
  "externals \<Rightarrow> msg_id \<Rightarrow> bus1_handle_dest \<Rightarrow> (msg_id \<times> bus1_handle_dest) list \<Rightarrow> state \<Rightarrow> state" where
  "destroy_entry x message dest list s =
     (let s0 = s\<lparr>txn := (txn s)\<lparr>entries := list\<rparr>\<rparr>;
          p = raw_peer dest;
          s1 = mutex_lock p s0;
          (w, s2) = bus1_queue_remove x p message s1;
          s3 = (if w then bus1_peer_wake p s2 else s2);
          s4 = bus1_message_deallocate message p s3;
          s5 = mutex_unlock p s4;
          s6 = bus1_message_free (Some message) p s5
      in bus1_handle_dest_destroy dest s6)"

fun destroy_entries ::
  "externals \<Rightarrow> (msg_id \<times> bus1_handle_dest) list \<Rightarrow> state \<Rightarrow> state" where
  "destroy_entries x [] s = s"
| "destroy_entries x ((message, dest) # list) s =
     destroy_entries x list (destroy_entry x message dest list s)"

text \<open>Lines 119-121.\<close>

fun destroy_files :: "nat list \<Rightarrow> state \<Rightarrow> state" where
  "destroy_files [] s = s"
| "destroy_files (i # is) s =
     destroy_files is (if files (txn s) i \<noteq> 0 then emit (Fput (files (txn s) i)) s else s)"

definition bus1_transaction_destroy :: "externals \<Rightarrow> state \<Rightarrow> state" where
  "bus1_transaction_destroy x s =
     (let s1 = destroy_entries x (entries (txn s)) s;
          s2 = destroy_files [0..<n_fds (param (txn s1))] s1
      in emit TransferDestroy s2)"

text \<open>\<^verbatim>\<open>bus1_transaction_free\<close>, with the pointers \<^verbatim>\<open>transaction\<close> and
  \<^verbatim>\<open>stack_buffer\<close>; the object behind \<^verbatim>\<open>transaction\<close> is \<open>txn\<close>.\<close>

definition bus1_transaction_free :: "externals \<Rightarrow> nat \<Rightarrow> nat \<Rightarrow> state \<Rightarrow> state" where
  "bus1_transaction_free x transaction stack_buffer s =
     (if transaction = 0 then s
      else (let s1 = bus1_transaction_destroy x s
            in if transaction \<noteq> stack_buffer then emit (Kfree transaction) s1 else s1))"

definition bus1_transaction_import_vecs :: "new_outcome \<Rightarrow> state \<Rightarrow> int \<times> state" where
  "bus1_transaction_import_vecs oc s =
     (o_import_vecs oc,
      emit ImportVecs (s\<lparr>txn := (txn s)\<lparr>length_vecs := o_length_vecs oc\<rparr>\<rparr>))"

definition bus1_transaction_import_handles :: "new_outcome \<Rightarrow> state \<Rightarrow> int \<times> state" where
  "bus1_transaction_import_handles oc s = (o_import_handles oc, emit TransferImport s)"

text \<open>Lines 157-165, the loop over the descriptors.\<close>

fun import_files_loop :: "new_outcome \<Rightarrow> nat list \<Rightarrow> state \<Rightarrow> int \<times> state" where
  "import_files_loop oc [] s = (0, s)"
| "import_files_loop oc (i # is) s =
     (case o_import_fd oc i of
        Inl e \<Rightarrow> (e, emit (ImportFd i) s)
      | Inr f \<Rightarrow>
          import_files_loop oc is
            (emit (ImportFd i) (s\<lparr>txn := (txn s)\<lparr>files := (files (txn s))(i := f)\<rparr>\<rparr>)))"

definition bus1_transaction_import_files :: "new_outcome \<Rightarrow> state \<Rightarrow> int \<times> state" where
  "bus1_transaction_import_files oc s = import_files_loop oc [0..<n_fds (param (txn s))] s"

text \<open>\<^verbatim>\<open>bus1_transaction_new_from_user\<close>. The result is the returned pointer
  (\<open>Inl r\<close> is \<^verbatim>\<open>ERR_PTR(r)\<close>).\<close>

definition bus1_transaction_new_from_user ::
  "externals \<Rightarrow> new_outcome \<Rightarrow> nat \<Rightarrow> nat \<Rightarrow> peer_id \<Rightarrow> bus1_cmd_send \<Rightarrow> state \<Rightarrow> (int + nat) \<times> state" where
  "bus1_transaction_new_from_user x oc stack_buffer stack_size sender prm s =
     (let size = bus1_transaction_size x prm;
          transaction = (if size > stack_size then o_kmalloc oc else stack_buffer)
      in if size > stack_size \<and> transaction = 0 then (Inl (- ENOMEM), s)
         else
           (let s1 = bus1_transaction_init (o_raw_files oc) sender prm s;
                (r1, s2) = bus1_transaction_import_vecs oc s1
            in if r1 < 0 then (Inl r1, bus1_transaction_free x transaction stack_buffer s2)
               else
                 (let (r2, s3) = bus1_transaction_import_handles oc s2
                  in if r2 < 0 then (Inl r2, bus1_transaction_free x transaction stack_buffer s3)
                     else
                       (let (r3, s4) = bus1_transaction_import_files oc s3
                        in if r3 < 0 then
                             (Inl r3, bus1_transaction_free x transaction stack_buffer s4)
                           else (Inr transaction, s4)))))"

subsection \<open>Reading the event log\<close>

text \<open>The clocks of a state, peer by peer.\<close>

definition clocks :: "state \<Rightarrow> peer_id \<Rightarrow> u64" where
  "clocks s = (\<lambda>p. queue_clock (peers s p))"

text \<open>A store to user memory; a store that faulted; a call of
  \<^verbatim>\<open>bus1_transaction_consume\<close>; a release of a destination.\<close>

fun is_put_user :: "event \<Rightarrow> bool" where
  "is_put_user (PutUser a v f) = True"
| "is_put_user e = False"

fun is_fault :: "event \<Rightarrow> bool" where
  "is_fault (PutUser a v f) = f"
| "is_fault e = False"

fun is_consume :: "event \<Rightarrow> bool" where
  "is_consume (Consume m d ts) = True"
| "is_consume e = False"

fun is_dest_destroy :: "event \<Rightarrow> bool" where
  "is_dest_destroy (DestDestroy d) = True"
| "is_dest_destroy e = False"

text \<open>An event that carries a timestamp into a destination queue or handle table
  (a stage, an export) carries the timestamp \<open>t\<close>.\<close>

fun stamped :: "u64 \<Rightarrow> event \<Rightarrow> bool" where
  "stamped t (QueueStage p m ts w) = (ts = t)"
| "stamped t (HandleExport d p ts) = (ts = t)"
| "stamped t e = True"

text \<open>The log of \<open>s'\<close> continues the log of \<open>s\<close> without a store to user memory.\<close>

definition continues_without_store :: "state \<Rightarrow> state \<Rightarrow> bool" where
  "continues_without_store s s' =
     (\<exists>evs. trace s' = trace s @ evs \<and> \<not> list_ex is_put_user evs)"

text \<open>The node and the queue of a stage; the nodes a log stages, in order.\<close>

fun staged_node :: "event \<Rightarrow> (msg_id \<times> peer_id) list" where
  "staged_node (QueueStage p m ts w) = [(m, p)]"
| "staged_node e = []"

definition staged_nodes :: "event list \<Rightarrow> (msg_id \<times> peer_id) list" where
  "staged_nodes evs = concat (map staged_node evs)"

text \<open>A store to user memory or a stage.\<close>

definition is_store_or_stage :: "event \<Rightarrow> bool" where
  "is_store_or_stage e = (is_put_user e \<or> staged_node e \<noteq> [])"

text \<open>An event that reads or changes a clock: a tick or a sync.\<close>

fun is_clock_op :: "event \<Rightarrow> bool" where
  "is_clock_op (QueueTick p c) = True"
| "is_clock_op (QueueSync p t) = True"
| "is_clock_op e = False"

text \<open>An acquisition or a release of a peer lock.\<close>

fun is_lock_op :: "event \<Rightarrow> bool" where
  "is_lock_op (MutexLock p) = True"
| "is_lock_op (MutexUnlock p) = True"
| "is_lock_op e = False"

text \<open>The node and the queue of an operation that settles an entry on its destination:
  a stage or a remove; the nodes a log settles, in order.\<close>

fun settled_node :: "event \<Rightarrow> (msg_id \<times> peer_id) list" where
  "settled_node (QueueStage p m ts w) = [(m, p)]"
| "settled_node (QueueRemove p m w) = [(m, p)]"
| "settled_node e = []"

definition settled_nodes :: "event list \<Rightarrow> (msg_id \<times> peer_id) list" where
  "settled_nodes evs = concat (map settled_node evs)"

subsection \<open>The commit protocol in the words of the specification\<close>

text \<open>Section 4.5 of the specification, steps 2 and 3, over the clocks alone. The
  staging pass: for every entry in list order, under the destination peer lock,
  \<open>t0 = sync(dest.queue, t0); t0 = tick(dest.queue); stage(dest.queue, entry.node, t0 - 1)\<close>.
  Each entry comes with the answer of its \<open>stage\<close> (whether the front of the queue
  changed), which decides the wake-up. The result is the sequence of operations, the
  final \<open>t0\<close> and the clocks.\<close>

fun spec_staging_pass ::
  "u64 \<Rightarrow> ((msg_id \<times> bus1_handle_dest) \<times> bool) list \<Rightarrow> u64 \<Rightarrow> (peer_id \<Rightarrow> u64) \<Rightarrow>
     event list \<times> u64 \<times> (peer_id \<Rightarrow> u64)" where
  "spec_staging_pass step [] t0 clk = ([], t0, clk)"
| "spec_staging_pass step (((node, dest), w) # es) t0 clk =
     (let q = raw_peer dest;
          t1 = max (clk q) t0;
          t2 = t1 + step;
          (evs, t3, clk3) = spec_staging_pass step es t2 (clk(q := t2))
      in ([MutexLock q, QueueSync q t0, QueueTick q t2, QueueStage q node (t2 - 1) w] @
          (if w then [PeerWake q] else []) @ [MutexUnlock q] @ evs, t3, clk3))"

text \<open>The side-channel sync pass: for every entry, \<open>sync(dest.queue, t0)\<close>.\<close>

fun spec_sync_pass ::
  "(msg_id \<times> bus1_handle_dest) list \<Rightarrow> u64 \<Rightarrow> (peer_id \<Rightarrow> u64) \<Rightarrow>
     event list \<times> (peer_id \<Rightarrow> u64)" where
  "spec_sync_pass [] t0 clk = ([], clk)"
| "spec_sync_pass ((node, dest) # es) t0 clk =
     (let q = raw_peer dest;
          (evs, clk') = spec_sync_pass es t0 (clk(q := max (clk q) t0))
      in ([MutexLock q, QueueSync q t0, MutexUnlock q] @ evs, clk'))"

subsection \<open>The commit pass in the words of the specification\<close>

text \<open>What the commit pass reads and changes, apart from the log: which messages have a
  slice, where each node is linked, the destination id in each header, the sender's
  user memory and the dropped-counters.\<close>

record view =
  v_slice :: "msg_id \<Rightarrow> bool"
  v_node :: "msg_id \<Rightarrow> (peer_id \<times> u64) option"
  v_dest :: "msg_id \<Rightarrow> u64"
  v_umem :: "uptr \<Rightarrow> u64 option"
  v_dropped :: "peer_id \<Rightarrow> 32 word"

definition view_of :: "state \<Rightarrow> view" where
  "view_of s = \<lparr>v_slice = (\<lambda>m. slice (msgs s m)), v_node = (\<lambda>m. qnode (msgs s m)),
                 v_dest = (\<lambda>m. destination (msgs s m)), v_umem = umem s,
                 v_dropped = (\<lambda>p. n_dropped (peers s p))\<rparr>"

text \<open>The write-back of an id to the sender-provided user address: nothing for a null
  address, a fault for an unmapped one, otherwise the store. The result is the
  operations, whether the write-back faulted, and the view.\<close>

definition spec_write_back :: "uptr \<Rightarrow> u64 \<Rightarrow> view \<Rightarrow> event list \<times> bool \<times> view" where
  "spec_write_back a v vw =
     (if a = 0 then ([], False, vw)
      else if v_umem vw a = None then ([PutUser a v True], True, vw)
      else ([PutUser a v False], False, vw\<lparr>v_umem := (v_umem vw)(a \<mapsto> v)\<rparr>))"

text \<open>An entry that is not delivered: its node is removed from the queue and its slice
  is released.\<close>

definition spec_discard :: "msg_id \<Rightarrow> peer_id \<Rightarrow> bool \<Rightarrow> view \<Rightarrow> event list \<times> view" where
  "spec_discard node q w vw =
     ([QueueRemove q node w, MessageDeallocate node q],
      vw\<lparr>v_node := (v_node vw)(node := None), v_slice := (v_slice vw)(node := False)\<rparr>)"

text \<open>Section 4.5 of the specification, step 4, for one entry and the commit timestamp
  \<open>t0\<close>, all under the destination peer lock: translate the destination-local handle
  id, write it back to the sender-provided user address, then commit the node at \<open>t0\<close>
  (the code stages it there), waking the peer if the front of the queue changed. An
  entry without a slice (dropped under \<^verbatim>\<open>CONTINUE\<close>, sections 4.3 and 7) gets the
  invalid id written back, advances the dropped-counter of its peer, which is woken at
  the first drop, and is discarded. An entry whose node is no longer linked (the queue
  was reset) is discarded silently, and so is one whose handle translates to the
  invalid id (the node was destroyed). A delivered message is owned by the queue; a
  discarded one is freed. Each entry comes with the answers of the other subsystems:
  the id of the translation, and whether the stage or the remove changed the front of
  the queue. The result is the operations, whether the write-back faulted, and the
  view.\<close>

definition spec_commit_entry ::
  "u64 \<Rightarrow> msg_id \<times> bus1_handle_dest \<Rightarrow> u64 \<Rightarrow> u64 \<times> bool \<Rightarrow> view \<Rightarrow>
     event list \<times> bool \<times> view" where
  "spec_commit_entry invalid e t0 ans vw =
     (let node = fst e; dest = snd e; q = raw_peer dest; ident = fst ans; w = snd ans;
          enter = [Consume node dest t0, HandleInstall node q, MutexLock q];
          leave = (\<lambda>owned. [MutexUnlock q, MessageFree owned q, DestDestroy dest])
      in if \<not> v_slice vw node then
           (let (wb, f, vw1) = spec_write_back (idp dest) invalid vw;
                n = v_dropped vw1 q + 1;
                (rm, vw2) = spec_discard node q w (vw1\<lparr>v_dropped := (v_dropped vw1)(q := n)\<rparr>)
            in (enter @ wb @ [DroppedInc q] @ (if n = 1 then [PeerWake q] else []) @ rm @
                leave (Some node), f, vw2))
         else if v_node vw node = None then
           (let (rm, vw1) = spec_discard node q w vw
            in (enter @ rm @ leave (Some node), False, vw1))
         else
           (let (wb, f, vw1) = spec_write_back (idp dest) ident vw
            in if ident = invalid then
                 (let (rm, vw2) = spec_discard node q w vw1
                  in (enter @ [HandleExport dest q t0] @ wb @ rm @ leave (Some node), f, vw2))
               else
                 (enter @ [HandleExport dest q t0] @ wb @ [QueueStage q node t0 w] @
                  (if w then [PeerWake q] else []) @ leave None, f,
                  vw1\<lparr>v_node := (v_node vw1)(node \<mapsto> (q, t0)),
                      v_dest := (v_dest vw1)(node := ident)\<rparr>)))"

text \<open>The commit pass: every entry in list order; a fault of any write-back is kept.\<close>

fun spec_commit_pass ::
  "u64 \<Rightarrow> ((msg_id \<times> bus1_handle_dest) \<times> (u64 \<times> bool)) list \<Rightarrow> u64 \<Rightarrow> view \<Rightarrow>
     event list \<times> bool \<times> view" where
  "spec_commit_pass invalid [] t0 vw = ([], False, vw)"
| "spec_commit_pass invalid ((e, ans) # es) t0 vw =
     (let (evs1, f1, vw1) = spec_commit_entry invalid e t0 ans vw;
          (evs2, f2, vw2) = spec_commit_pass invalid es t0 vw1
      in (evs1 @ evs2, f1 \<or> f2, vw2))"

subsection \<open>Teardown in the words of the specification\<close>

text \<open>What teardown does for one entry, given the answer of \<open>remove\<close> (whether it altered
  what the queue shows): under the destination peer lock, remove the node from the
  queue, wake the peer if that altered visibility, and deallocate the slice; then free
  the message and release the destination pin.\<close>

fun teardown_entry_log :: "(msg_id \<times> bus1_handle_dest) \<times> bool \<Rightarrow> event list" where
  "teardown_entry_log ((node, dest), w) =
     [MutexLock (raw_peer dest), QueueRemove (raw_peer dest) node w] @
     (if w then [PeerWake (raw_peer dest)] else []) @
     [MessageDeallocate node (raw_peer dest), MutexUnlock (raw_peer dest),
      MessageFree (Some node) (raw_peer dest), DestDestroy dest]"

text \<open>The release of the sender's file references: one \<^verbatim>\<open>fput\<close> per slot that holds a
  file.\<close>

definition teardown_files_log :: "bus1_transaction \<Rightarrow> event list" where
  "teardown_files_log t =
     map Fput (filter (\<lambda>f. f \<noteq> 0) (map (files t) [0..<n_fds (param t)]))"

subsection \<open>A commit raced by a queue reset\<close>

text \<open>\<^verbatim>\<open>bus1_transaction_commit\<close> holds no lock between its passes. \<open>env\<close> is what other
  tasks do to the state after the sync pass and before the commit pass; with the
  identity for \<open>env\<close> this is \<^verbatim>\<open>bus1_transaction_commit\<close>.\<close>

definition bus1_transaction_commit_raced ::
  "externals \<Rightarrow> (state \<Rightarrow> state) \<Rightarrow> state \<Rightarrow> int \<times> state" where
  "bus1_transaction_commit_raced x env s =
     (if entries (txn s) = [] then (0, s)
      else (let (list, timestamp, s1) = commit_prepare x s
            in commit_consume_pass x list timestamp 0 (env s1)))"

subsection \<open>A concrete send\<close>

text \<open>Constants as in \<^verbatim>\<open>uapi/linux/bus1.h\<close> on a 64-bit kernel, a clock that ticks by two,
  an export that yields the handle of the destination, and queues whose front never
  changes.\<close>

definition x0 :: externals where
  "x0 = \<lparr>BUS1_HANDLE_INVALID = - 1, BUS1_SEND_FLAG_CONTINUE = 1, BUS1_SEND_FLAG_SILENT = 2,
          sizeof_transaction = 96, sizeof_iovec = 16, sizeof_file_ptr = 8,
          handle_batch_inline_size = (\<lambda>n. 8 * n), tick_step = 2,
          dest_export = (\<lambda>s d p ts. hnd d),
          stage_front = (\<lambda>s p m ts. False),
          remove_front = (\<lambda>s p m. False)\<rparr>"

text \<open>Peer 1 sends; peers 2 and 3 receive, peer 3 with its clock at 10. User addresses 100
  and 101 are mapped, address 200 is not.\<close>

definition dA :: bus1_handle_dest where
  "dA = \<lparr>raw_peer = 2, idp = 100, hnd = 7\<rparr>"

definition dB :: bus1_handle_dest where
  "dB = \<lparr>raw_peer = 3, idp = 200, hnd = 8\<rparr>"

definition dC :: bus1_handle_dest where
  "dC = \<lparr>raw_peer = 3, idp = 101, hnd = 8\<rparr>"

definition p0 :: bus1_cmd_send where
  "p0 = \<lparr>flags = 0, n_vecs = 0, n_fds = 0, n_handles = 0\<rparr>"

definition s0 :: state where
  "s0 = \<lparr>txn = \<lparr>peer = 1, param = p0, files = (\<lambda>i. 0), length_vecs = 0, entries = []\<rparr>,
          peers = (\<lambda>p. \<lparr>queue_clock = (if p = 3 then 10 else 0), n_dropped = 0\<rparr>),
          msgs = (\<lambda>m. \<lparr>slice = True, qnode = None, destination = 0\<rparr>),
          umem = (\<lambda>a. if a = 100 \<or> a = 101 then Some 0 else None),
          trace = []\<rparr>"

text \<open>The same state with one entry (message 10 for peer 2) and with two entries
  (message 11 for peer 3 in front of it), the id pointer of message 11 unmapped in \<open>s2\<close>
  and mapped in \<open>s3\<close>.\<close>

definition s1 :: state where
  "s1 = s0\<lparr>txn := (txn s0)\<lparr>entries := [(10, dA)]\<rparr>\<rparr>"

definition s2 :: state where
  "s2 = s0\<lparr>txn := (txn s0)\<lparr>entries := [(11, dB), (10, dA)]\<rparr>\<rparr>"

definition s3 :: state where
  "s3 = s0\<lparr>txn := (txn s0)\<lparr>entries := [(11, dC), (10, dA)]\<rparr>\<rparr>"

text \<open>A send with one file descriptor and no vectors, whose descriptor cannot be
  imported (\<open>-EBADF\<close>); the memory of the transaction holds 7 in every slot of the files
  array before it is initialised.\<close>

definition p1 :: bus1_cmd_send where
  "p1 = \<lparr>flags = 0, n_vecs = 0, n_fds = 1, n_handles = 0\<rparr>"

definition oc_bad_fd :: new_outcome where
  "oc_bad_fd = \<lparr>o_kmalloc = 0, o_raw_files = (\<lambda>i. 7), o_import_vecs = 0, o_length_vecs = 0,
                 o_import_handles = 0, o_import_fd = (\<lambda>i. Inl (- 9))\<rparr>"

text \<open>Instantiations: one for peer 2 where every helper succeeds, and two where the slice
  allocation fails (\<open>-EDQUOT\<close>), for peer 3 with its id pointer at the unmapped address
  200 and for peer 2 with its id pointer at the mapped address 100. \<open>s0c\<close> is \<open>s0\<close> with
  the flag \<^verbatim>\<open>BUS1_SEND_FLAG_CONTINUE\<close> set.\<close>

definition oc_ok :: inst_outcome where
  "oc_ok = \<lparr>o_dest_import = 0, o_dest = dA, o_message_new = Inr 10, o_allocate = 0,
             o_write_iovec = 0, o_inflight_instantiate = 0\<rparr>"

definition oc_quota :: inst_outcome where
  "oc_quota = \<lparr>o_dest_import = 0, o_dest = dB, o_message_new = Inr 11, o_allocate = - 122,
                o_write_iovec = 0, o_inflight_instantiate = 0\<rparr>"

definition oc_quota_mapped :: inst_outcome where
  "oc_quota_mapped = \<lparr>o_dest_import = 0, o_dest = dA, o_message_new = Inr 10,
                       o_allocate = - 122, o_write_iovec = 0, o_inflight_instantiate = 0\<rparr>"

definition s0c :: state where
  "s0c = s0\<lparr>txn := (txn s0)\<lparr>param := p0\<lparr>flags := 1\<rparr>\<rparr>\<rparr>"

section \<open>Lemmas on the commit\<close>

subsection \<open>The primitives\<close>

lemma emit_simps [simp]:
  "txn (emit e s) = txn s" "peers (emit e s) = peers s" "msgs (emit e s) = msgs s"
  "umem (emit e s) = umem s" "trace (emit e s) = trace s @ [e]"
  by (simp_all add: emit_def)

lemmas prim_defs = mutex_lock_def mutex_unlock_def set_clock_def set_qnode_def
  bus1_queue_tick_def bus1_queue_sync_def bus1_queue_stage_def bus1_queue_remove_def
  bus1_queue_node_is_queued_def bus1_peer_wake_def put_user_def
  atomic_inc_return_n_dropped_def bus1_handle_inflight_install_def
  bus1_handle_dest_export_def bus1_handle_dest_destroy_def bus1_message_deallocate_def
  bus1_message_free_def

lemma no_put_user_no_fault: "\<not> list_ex is_put_user evs \<Longrightarrow> \<not> list_ex is_fault evs"
  by (induction evs) (auto elim: is_fault.elims)

subsection \<open>The steps of bus1\_transaction\_consume\<close>

lemma tick_sender_nz [simp]: "ts \<noteq> 0 \<Longrightarrow> consume_tick_sender x ts s = (ts, s)"
  by (simp add: consume_tick_sender_def)

lemma sync_dest_nz [simp]: "ts \<noteq> 0 \<Longrightarrow> consume_sync_dest x p ts ts0 s = (ts0, s)"
  by (simp add: consume_sync_dest_def)

lemma tick_sender_frame [simp]:
  "txn (snd (consume_tick_sender x ts s)) = txn s"
  "msgs (snd (consume_tick_sender x ts s)) = msgs s"
  "umem (snd (consume_tick_sender x ts s)) = umem s"
  "n_dropped (peers (snd (consume_tick_sender x ts s)) q) = n_dropped (peers s q)"
  by (simp_all add: consume_tick_sender_def prim_defs Let_def split_def)

lemma tick_sender_trace:
  "trace (snd (consume_tick_sender x ts s)) = trace s @
     (if ts = 0 then [MutexLock (peer (txn s)),
                      QueueTick (peer (txn s)) (fst (consume_tick_sender x ts s)),
                      MutexUnlock (peer (txn s))] else [])"
  by (simp add: consume_tick_sender_def prim_defs Let_def split_def)

lemma sync_dest_frame [simp]:
  "txn (snd (consume_sync_dest x p ts ts0 s)) = txn s"
  "msgs (snd (consume_sync_dest x p ts ts0 s)) = msgs s"
  "umem (snd (consume_sync_dest x p ts ts0 s)) = umem s"
  "n_dropped (peers (snd (consume_sync_dest x p ts ts0 s)) q) = n_dropped (peers s q)"
  by (simp_all add: consume_sync_dest_def prim_defs Let_def split_def)

lemma sync_dest_trace:
  "trace (snd (consume_sync_dest x p ts ts0 s)) = trace s @
     (if ts = 0 then [QueueSync p ts0, QueueTick p (fst (consume_sync_dest x p ts ts0 s))]
      else [])"
  by (simp add: consume_sync_dest_def prim_defs Let_def split_def)

lemma writeback_frame [simp]:
  "txn (snd (consume_writeback x m d ts s)) = txn s"
  "msgs (snd (consume_writeback x m d ts s)) = msgs s"
  "queue_clock (peers (snd (consume_writeback x m d ts s)) q) = queue_clock (peers s q)"
  by (simp_all add: consume_writeback_def prim_defs Let_def split_def)

lemma writeback_n_dropped:
  "n_dropped (peers (snd (consume_writeback x m d ts s)) q) =
     (if \<not> slice (msgs s m) \<and> q = raw_peer d then n_dropped (peers s q) + 1
      else n_dropped (peers s q))"
  by (simp add: consume_writeback_def prim_defs Let_def split_def)

lemma writeback_umem_other:
  "a \<noteq> idp d \<Longrightarrow> umem (snd (consume_writeback x m d ts s)) a = umem s a"
  by (simp add: consume_writeback_def prim_defs Let_def split_def)

lemma writeback_ident:
  "fst (fst (consume_writeback x m d ts s)) =
     (if slice (msgs s m) \<and> qnode (msgs s m) \<noteq> None then dest_export x s d (raw_peer d) ts
      else BUS1_HANDLE_INVALID x)"
  by (simp add: consume_writeback_def prim_defs Let_def split_def)

lemma writeback_faulted:
  "snd (fst (consume_writeback x m d ts s)) =
     ((\<not> slice (msgs s m) \<or> qnode (msgs s m) \<noteq> None) \<and> idp d \<noteq> 0 \<and> umem s (idp d) = None)"
  by (simp add: consume_writeback_def prim_defs Let_def split_def)

lemma writeback_trace:
  "trace (snd (consume_writeback x m d ts s)) = trace s @
     (if \<not> slice (msgs s m) then
        (if idp d \<noteq> 0
         then [PutUser (idp d) (BUS1_HANDLE_INVALID x) (umem s (idp d) = None)] else []) @
        [DroppedInc (raw_peer d)] @
        (if n_dropped (peers s (raw_peer d)) + 1 = 1 then [PeerWake (raw_peer d)] else [])
      else if qnode (msgs s m) \<noteq> None then
        [HandleExport d (raw_peer d) ts] @
        (if idp d \<noteq> 0
         then [PutUser (idp d) (dest_export x s d (raw_peer d) ts) (umem s (idp d) = None)]
         else [])
      else [])"
  by (simp add: consume_writeback_def prim_defs Let_def split_def)

lemma link_frame [simp]:
  "txn (snd (consume_link x m p i ts s)) = txn s"
  "umem (snd (consume_link x m p i ts s)) = umem s"
  "peers (snd (consume_link x m p i ts s)) = peers s"
  by (simp_all add: consume_link_def prim_defs Let_def split_def)

lemma link_msgs_other:
  "m' \<noteq> m \<Longrightarrow> msgs (snd (consume_link x m p i ts s)) m' = msgs s m'"
  by (simp add: consume_link_def prim_defs Let_def split_def)

lemma link_msgs_same:
  "msgs (snd (consume_link x m p i ts s)) m =
     (if i \<noteq> BUS1_HANDLE_INVALID x then (msgs s m)\<lparr>destination := i, qnode := Some (p, ts)\<rparr>
      else (msgs s m)\<lparr>qnode := None, slice := False\<rparr>)"
  by (simp add: consume_link_def prim_defs Let_def split_def)

lemma link_fst:
  "fst (consume_link x m p i ts s) =
     (if i \<noteq> BUS1_HANDLE_INVALID x then (0, None)
      else (if slice (msgs s m) then - EHOSTUNREACH else 0, Some m))"
  by (simp add: consume_link_def prim_defs Let_def split_def)

lemma link_trace:
  "\<exists>w. trace (snd (consume_link x m p i ts s)) = trace s @
     (if i \<noteq> BUS1_HANDLE_INVALID x then
        [QueueStage p m ts w] @ (if w then [PeerWake p] else [])
      else [QueueRemove p m w, MessageDeallocate m p])"
  by (simp add: consume_link_def prim_defs Let_def split_def) blast

lemma enter_nz:
  "ts \<noteq> 0 \<Longrightarrow> consume_enter x m d ts s =
     (ts, s\<lparr>trace := trace s @ [Consume m d ts, HandleInstall m (raw_peer d),
                                 MutexLock (raw_peer d)]\<rparr>)"
  by (simp add: consume_enter_def Let_def mutex_lock_def bus1_handle_inflight_install_def
      emit_def)

lemma enter_frame [simp]:
  "txn (snd (consume_enter x m d ts s)) = txn s"
  "msgs (snd (consume_enter x m d ts s)) = msgs s"
  "umem (snd (consume_enter x m d ts s)) = umem s"
  "n_dropped (peers (snd (consume_enter x m d ts s)) q) = n_dropped (peers s q)"
  by (simp_all add: consume_enter_def Let_def split_def mutex_lock_def
      bus1_handle_inflight_install_def)

lemma enter_trace:
  "\<exists>evs. trace (snd (consume_enter x m d ts s)) = trace s @ Consume m d ts # evs \<and>
     \<not> list_ex is_put_user evs \<and> \<not> list_ex is_consume evs \<and> \<not> list_ex is_dest_destroy evs"
  by (simp add: consume_enter_def Let_def split_def mutex_lock_def
      bus1_handle_inflight_install_def tick_sender_trace sync_dest_trace)

subsection \<open>bus1\_transaction\_consume\<close>

lemmas consume_tail_defs = mutex_unlock_def bus1_message_free_def bus1_handle_dest_destroy_def

lemma consume_txn [simp]: "txn (snd (bus1_transaction_consume x m d ts s)) = txn s"
  by (simp add: bus1_transaction_consume_def Let_def split_def consume_tail_defs)

lemma consume_msgs_other:
  "m' \<noteq> m \<Longrightarrow> msgs (snd (bus1_transaction_consume x m d ts s)) m' = msgs s m'"
  by (simp add: bus1_transaction_consume_def Let_def split_def link_msgs_other consume_tail_defs)

lemma consume_umem_other:
  "a \<noteq> idp d \<Longrightarrow> umem (snd (bus1_transaction_consume x m d ts s)) a = umem s a"
  by (simp add: bus1_transaction_consume_def Let_def split_def writeback_umem_other
      consume_tail_defs)

lemma consume_n_dropped:
  "n_dropped (peers (snd (bus1_transaction_consume x m d ts s)) q) =
     (if \<not> slice (msgs s m) \<and> q = raw_peer d then n_dropped (peers s q) + 1
      else n_dropped (peers s q))"
  by (simp add: bus1_transaction_consume_def Let_def split_def writeback_n_dropped
      consume_tail_defs)

lemma consume_clocks_nz:
  "ts \<noteq> 0 \<Longrightarrow> clocks (snd (bus1_transaction_consume x m d ts s)) = clocks s"
  by (rule ext)
     (simp add: clocks_def bus1_transaction_consume_def Let_def split_def enter_nz
      consume_tail_defs)

lemma consume_result:
  "fst (bus1_transaction_consume x m d ts s) =
     (if (\<not> slice (msgs s m) \<or> qnode (msgs s m) \<noteq> None) \<and> idp d \<noteq> 0 \<and> umem s (idp d) = None
      then - EFAULT
      else if \<not> slice (msgs s m) then 0
      else if qnode (msgs s m) = None then - EHOSTUNREACH
      else if dest_export x (snd (consume_enter x m d ts s)) d (raw_peer d)
                (fst (consume_enter x m d ts s)) = BUS1_HANDLE_INVALID x
      then - EHOSTUNREACH
      else 0)"
  by (auto simp add: bus1_transaction_consume_def Let_def split_def link_fst writeback_ident
      writeback_faulted EFAULT_def EHOSTUNREACH_def)

lemma consume_unlinked:
  "\<not> slice (msgs s m) \<or> qnode (msgs s m) = None \<Longrightarrow>
     qnode (msgs (snd (bus1_transaction_consume x m d ts s)) m) = None \<and>
     \<not> slice (msgs (snd (bus1_transaction_consume x m d ts s)) m)"
  by (auto simp add: bus1_transaction_consume_def Let_def split_def link_msgs_same writeback_ident
      consume_tail_defs)

lemma consume_linked_nz:
  "ts \<noteq> 0 \<Longrightarrow> slice (msgs s m) \<Longrightarrow> qnode (msgs s m) \<noteq> None \<Longrightarrow>
   \<forall>s'. dest_export x s' d (raw_peer d) ts \<noteq> BUS1_HANDLE_INVALID x \<Longrightarrow>
     qnode (msgs (snd (bus1_transaction_consume x m d ts s)) m) = Some (raw_peer d, ts)"
  by (simp add: bus1_transaction_consume_def Let_def split_def link_msgs_same writeback_ident
      enter_nz consume_tail_defs)

lemma consume_log:
  "\<exists>evs. trace (snd (bus1_transaction_consume x m d ts s)) = trace s @ Consume m d ts # evs \<and>
     \<not> list_ex is_consume evs \<and>
     (list_ex is_fault evs \<longleftrightarrow> fst (bus1_transaction_consume x m d ts s) = - EFAULT) \<and>
     filter is_dest_destroy evs = [DestDestroy d]"
proof -
  obtain evs where e: "trace (snd (consume_enter x m d ts s)) = trace s @ Consume m d ts # evs"
    "\<not> list_ex is_put_user evs" "\<not> list_ex is_consume evs" "\<not> list_ex is_dest_destroy evs"
    using enter_trace by blast
  have nf: "\<not> list_ex is_fault evs" using e(2) by (rule no_put_user_no_fault)
  have nd: "filter is_dest_destroy evs = []" using e(4) by (induction evs) auto
  let ?s4 = "snd (consume_enter x m d ts s)" and ?ts = "fst (consume_enter x m d ts s)"
  let ?wb = "consume_writeback x m d ?ts ?s4"
  obtain w where w: "trace (snd (consume_link x m (raw_peer d) (fst (fst ?wb)) ?ts (snd ?wb))) =
     trace (snd ?wb) @
     (if fst (fst ?wb) \<noteq> BUS1_HANDLE_INVALID x then
        [QueueStage (raw_peer d) m ?ts w] @ (if w then [PeerWake (raw_peer d)] else [])
      else [QueueRemove (raw_peer d) m w, MessageDeallocate m (raw_peer d)])"
    using link_trace by blast
  show ?thesis
    using e nf nd w
    by (simp add: bus1_transaction_consume_def Let_def split_def link_fst writeback_trace
        writeback_ident writeback_faulted consume_tail_defs EFAULT_def EHOSTUNREACH_def)
qed

lemma consume_stamped_nz:
  assumes "ts \<noteq> 0"
  shows "\<exists>evs. trace (snd (bus1_transaction_consume x m d ts s)) = trace s @ evs \<and>
     list_all (stamped ts) evs \<and> \<not> list_ex is_clock_op evs"
proof -
  let ?s4 = "snd (consume_enter x m d ts s)"
  let ?wb = "consume_writeback x m d ts ?s4"
  obtain w where w: "trace (snd (consume_link x m (raw_peer d) (fst (fst ?wb)) ts (snd ?wb))) =
     trace (snd ?wb) @
     (if fst (fst ?wb) \<noteq> BUS1_HANDLE_INVALID x then
        [QueueStage (raw_peer d) m ts w] @ (if w then [PeerWake (raw_peer d)] else [])
      else [QueueRemove (raw_peer d) m w, MessageDeallocate m (raw_peer d)])"
    using link_trace by blast
  show ?thesis
    using assms w
    by (simp add: bus1_transaction_consume_def Let_def split_def enter_nz writeback_trace
        consume_tail_defs)
qed

subsection \<open>The commit pass\<close>

lemma consume_pass_txn [simp]: "txn (snd (commit_consume_pass x es ts res s)) = txn s"
  by (induction es arbitrary: res s) (auto simp add: split_def Let_def)

lemma consume_pass_log:
  "\<exists>evs. trace (snd (commit_consume_pass x es ts res s)) = trace s @ evs \<and>
     filter is_consume evs = map (\<lambda>(m, d). Consume m d ts) es \<and>
     filter is_dest_destroy evs = map (\<lambda>(m, d). DestDestroy d) es \<and>
     fst (commit_consume_pass x es ts res s) = (if list_ex is_fault evs then - EFAULT else res)"
proof (induction es arbitrary: res s)
  case Nil
  then show ?case by simp
next
  case (Cons e es)
  obtain m d where e: "e = (m, d)" by (cases e)
  let ?c = "bus1_transaction_consume x m d ts s"
  let ?res = "if fst ?c = - EFAULT then fst ?c else res"
  obtain evs1 where c: "trace (snd ?c) = trace s @ Consume m d ts # evs1"
    "\<not> list_ex is_consume evs1" "list_ex is_fault evs1 \<longleftrightarrow> fst ?c = - EFAULT"
    "filter is_dest_destroy evs1 = [DestDestroy d]"
    using consume_log by blast
  have nc: "filter is_consume evs1 = []" using c(2) by (induction evs1) auto
  from Cons.IH [of ?res "snd ?c"] obtain evs2 where
    p: "trace (snd (commit_consume_pass x es ts ?res (snd ?c))) = trace (snd ?c) @ evs2"
       "filter is_consume evs2 = map (\<lambda>(m, d). Consume m d ts) es"
       "filter is_dest_destroy evs2 = map (\<lambda>(m, d). DestDestroy d) es"
       "fst (commit_consume_pass x es ts ?res (snd ?c)) =
          (if list_ex is_fault evs2 then - EFAULT else ?res)"
    by blast
  show ?case
    apply (rule exI [of _ "Consume m d ts # evs1 @ evs2"])
    using c nc p by (simp add: e split_def Let_def)
qed

lemma consume_pass_stamped_nz:
  "ts \<noteq> 0 \<Longrightarrow> \<exists>evs. trace (snd (commit_consume_pass x es ts res s)) = trace s @ evs \<and>
     list_all (stamped ts) evs \<and> \<not> list_ex is_clock_op evs"
proof (induction es arbitrary: res s)
  case Nil
  then show ?case by simp
next
  case (Cons e es)
  obtain m d where e: "e = (m, d)" by (cases e)
  let ?c = "bus1_transaction_consume x m d ts s"
  let ?res = "if fst ?c = - EFAULT then fst ?c else res"
  obtain evs1 where c: "trace (snd ?c) = trace s @ evs1" "list_all (stamped ts) evs1"
    "\<not> list_ex is_clock_op evs1"
    using consume_stamped_nz [OF Cons.prems] by blast
  from Cons.IH [OF Cons.prems, of ?res "snd ?c"] obtain evs2 where
    p: "trace (snd (commit_consume_pass x es ts ?res (snd ?c))) = trace (snd ?c) @ evs2"
       "list_all (stamped ts) evs2" "\<not> list_ex is_clock_op evs2"
    by blast
  show ?case
    apply (rule exI [of _ "evs1 @ evs2"])
    using c p by (simp add: e split_def Let_def)
qed

lemma consume_pass_clocks_nz:
  "ts \<noteq> 0 \<Longrightarrow> clocks (snd (commit_consume_pass x es ts res s)) = clocks s"
  by (induction es arbitrary: res s) (auto simp add: split_def Let_def consume_clocks_nz)

subsection \<open>The staging and sync passes\<close>

lemma staged_nodes_simps [simp]:
  "staged_nodes [] = []"
  "staged_nodes (e # evs) = staged_node e @ staged_nodes evs"
  "staged_nodes (evs @ evs') = staged_nodes evs @ staged_nodes evs'"
  by (simp_all add: staged_nodes_def)

lemma stage_entry_fst:
  "fst (commit_stage_entry x m d t s) = max (clocks s (raw_peer d)) t + tick_step x"
  by (simp add: clocks_def commit_stage_entry_def prim_defs Let_def split_def)

lemma stage_entry_frame [simp]:
  "txn (snd (commit_stage_entry x m d t s)) = txn s"
  "umem (snd (commit_stage_entry x m d t s)) = umem s"
  "n_dropped (peers (snd (commit_stage_entry x m d t s)) q) = n_dropped (peers s q)"
  by (simp_all add: commit_stage_entry_def prim_defs Let_def split_def)

lemma stage_entry_clocks:
  "clocks (snd (commit_stage_entry x m d t s)) =
     (clocks s)(raw_peer d := max (clocks s (raw_peer d)) t + tick_step x)"
  by (rule ext) (simp add: clocks_def commit_stage_entry_def prim_defs Let_def split_def)

lemma stage_entry_msgs:
  "msgs (snd (commit_stage_entry x m d t s)) =
     (msgs s)(m := (msgs s m)\<lparr>qnode := Some (raw_peer d, fst (commit_stage_entry x m d t s) - 1)\<rparr>)"
  by (simp add: commit_stage_entry_def prim_defs Let_def split_def)

lemma stage_entry_trace:
  "\<exists>w. trace (snd (commit_stage_entry x m d t s)) = trace s @
     [MutexLock (raw_peer d), QueueSync (raw_peer d) t,
      QueueTick (raw_peer d) (fst (commit_stage_entry x m d t s)),
      QueueStage (raw_peer d) m (fst (commit_stage_entry x m d t s) - 1) w] @
     (if w then [PeerWake (raw_peer d)] else []) @ [MutexUnlock (raw_peer d)]"
  by (simp add: commit_stage_entry_def prim_defs Let_def split_def) blast

lemma stage_pass_frame [simp]:
  "txn (snd (commit_stage_pass x es t s)) = txn s \<and>
   umem (snd (commit_stage_pass x es t s)) = umem s \<and>
   n_dropped (peers (snd (commit_stage_pass x es t s)) q) = n_dropped (peers s q)"
  by (induction es arbitrary: t s) (auto simp add: split_def Let_def)

lemma stage_pass_spec:
  "\<exists>ws evs. length ws = length es \<and>
     trace (snd (commit_stage_pass x es t s)) = trace s @ evs \<and>
     spec_staging_pass (tick_step x) (zip es ws) t (clocks s) =
       (evs, fst (commit_stage_pass x es t s), clocks (snd (commit_stage_pass x es t s)))"
proof (induction es arbitrary: t s)
  case Nil
  then show ?case by simp
next
  case (Cons e es)
  obtain m d where e: "e = (m, d)" by (cases e)
  let ?t = "fst (commit_stage_entry x m d t s)" and ?s = "snd (commit_stage_entry x m d t s)"
  obtain w where w: "trace ?s = trace s @
     [MutexLock (raw_peer d), QueueSync (raw_peer d) t, QueueTick (raw_peer d) ?t,
      QueueStage (raw_peer d) m (?t - 1) w] @
     (if w then [PeerWake (raw_peer d)] else []) @ [MutexUnlock (raw_peer d)]"
    using stage_entry_trace by blast
  from Cons.IH [of ?t ?s] obtain ws evs where ih: "length ws = length es"
     "trace (snd (commit_stage_pass x es ?t ?s)) = trace ?s @ evs"
     "spec_staging_pass (tick_step x) (zip es ws) ?t (clocks ?s) =
       (evs, fst (commit_stage_pass x es ?t ?s), clocks (snd (commit_stage_pass x es ?t ?s)))"
    by blast
  have t: "?t = max (clocks s (raw_peer d)) t + tick_step x"
    by (simp add: stage_entry_fst)
  show ?case
    apply (rule exI [of _ "w # ws"])
    apply (rule exI [of _ "[MutexLock (raw_peer d), QueueSync (raw_peer d) t,
      QueueTick (raw_peer d) ?t, QueueStage (raw_peer d) m (?t - 1) w] @
     (if w then [PeerWake (raw_peer d)] else []) @ [MutexUnlock (raw_peer d)] @ evs"])
    using ih w t
    by (simp add: e split_def Let_def stage_entry_clocks)
qed

lemma spec_staging_props:
  "spec_staging_pass step ews t clk = (evs, t', clk') \<Longrightarrow>
     \<not> list_ex is_put_user evs \<and> \<not> list_ex is_consume evs \<and> \<not> list_ex is_dest_destroy evs \<and>
     staged_nodes evs = map (\<lambda>((m, d), w). (m, raw_peer d)) ews"
proof (induction ews arbitrary: t clk evs t' clk')
  case Nil
  then show ?case by simp
next
  case (Cons a ews)
  obtain m d w where a: "a = ((m, d), w)" by (cases a) auto
  let ?t2 = "max (clk (raw_peer d)) t + step"
  obtain evs1 t1 clk1 where r: "spec_staging_pass step ews ?t2 (clk(raw_peer d := ?t2)) = (evs1, t1, clk1)"
    by (cases "spec_staging_pass step ews ?t2 (clk(raw_peer d := ?t2))") auto
  from Cons.IH [OF r] Cons.prems r show ?case
    by (cases w) (auto simp add: a Let_def)
qed

lemma sync_entry_frame [simp]:
  "txn (commit_sync_entry d t s) = txn s"
  "umem (commit_sync_entry d t s) = umem s"
  "msgs (commit_sync_entry d t s) = msgs s"
  "n_dropped (peers (commit_sync_entry d t s) q) = n_dropped (peers s q)"
  by (simp_all add: commit_sync_entry_def prim_defs Let_def split_def)

lemma sync_entry_clocks:
  "clocks (commit_sync_entry d t s) = (clocks s)(raw_peer d := max (clocks s (raw_peer d)) t)"
  by (rule ext) (simp add: clocks_def commit_sync_entry_def prim_defs Let_def split_def)

lemma sync_entry_trace:
  "trace (commit_sync_entry d t s) =
     trace s @ [MutexLock (raw_peer d), QueueSync (raw_peer d) t, MutexUnlock (raw_peer d)]"
  by (simp add: commit_sync_entry_def prim_defs Let_def split_def)

lemma sync_pass_frame [simp]:
  "txn (commit_sync_pass es t s) = txn s \<and>
   umem (commit_sync_pass es t s) = umem s \<and>
   msgs (commit_sync_pass es t s) = msgs s \<and>
   n_dropped (peers (commit_sync_pass es t s) q) = n_dropped (peers s q)"
  by (induction es arbitrary: s) auto

lemma sync_pass_spec:
  "\<exists>evs. trace (commit_sync_pass es t s) = trace s @ evs \<and>
     spec_sync_pass es t (clocks s) = (evs, clocks (commit_sync_pass es t s))"
proof (induction es arbitrary: s)
  case Nil
  then show ?case by simp
next
  case (Cons e es)
  obtain m d where e: "e = (m, d)" by (cases e)
  let ?s = "commit_sync_entry d t s"
  from Cons.IH [of ?s] obtain evs where ih:
    "trace (commit_sync_pass es t ?s) = trace ?s @ evs"
    "spec_sync_pass es t (clocks ?s) = (evs, clocks (commit_sync_pass es t ?s))"
    by blast
  show ?case
    apply (rule exI [of _ "[MutexLock (raw_peer d), QueueSync (raw_peer d) t,
       MutexUnlock (raw_peer d)] @ evs"])
    using ih by (simp add: e Let_def sync_entry_trace sync_entry_clocks)
qed

lemma spec_sync_props:
  "spec_sync_pass es t clk = (evs, clk') \<Longrightarrow>
     \<not> list_ex is_put_user evs \<and> \<not> list_ex is_consume evs \<and> \<not> list_ex is_dest_destroy evs \<and>
     staged_nodes evs = [] \<and> (\<forall>(m, d) \<in> set es. QueueSync (raw_peer d) t \<in> set evs)"
proof (induction es arbitrary: clk evs clk')
  case Nil
  then show ?case by simp
next
  case (Cons e es)
  obtain m d where e: "e = (m, d)" by (cases e)
  let ?clk = "clk(raw_peer d := max (clk (raw_peer d)) t)"
  obtain evs1 clk1 where r: "spec_sync_pass es t ?clk = (evs1, clk1)"
    by (cases "spec_sync_pass es t ?clk") auto
  from Cons.IH [OF r] Cons.prems r show ?case
    by (auto simp add: e Let_def)
qed

lemma sync_pass_clocks:
  "clocks (commit_sync_pass es t s) p =
     (if p \<in> set (map (\<lambda>(m, d). raw_peer d) es) then max (clocks s p) t else clocks s p)"
proof (induction es arbitrary: s)
  case Nil
  then show ?case by simp
next
  case (Cons e es)
  obtain m d where e: "e = (m, d)" by (cases e)
  show ?case
    by (simp add: e Cons.IH sync_entry_clocks)
qed

subsection \<open>Before the commit pass\<close>

lemma begin_fst: "fst (commit_begin x s) = clocks s (peer (txn s)) + tick_step x"
  by (simp add: commit_begin_def clocks_def prim_defs Let_def split_def)

lemma begin_frame [simp]:
  "txn (snd (commit_begin x s)) = (txn s)\<lparr>entries := []\<rparr>"
  "umem (snd (commit_begin x s)) = umem s"
  "msgs (snd (commit_begin x s)) = msgs s"
  "n_dropped (peers (snd (commit_begin x s)) q) = n_dropped (peers s q)"
  by (simp_all add: commit_begin_def prim_defs Let_def split_def)

lemma begin_clocks:
  "clocks (snd (commit_begin x s)) =
     (clocks s)(peer (txn s) := clocks s (peer (txn s)) + tick_step x)"
  by (rule ext) (simp add: commit_begin_def clocks_def prim_defs Let_def split_def)

lemma begin_trace:
  "trace (snd (commit_begin x s)) = trace s @
     [MutexLock (peer (txn s)), QueueTick (peer (txn s)) (clocks s (peer (txn s)) + tick_step x),
      MutexUnlock (peer (txn s))]"
  by (simp add: commit_begin_def clocks_def prim_defs Let_def split_def)

lemma prepare_fst [simp]: "fst (commit_prepare x s) = entries (txn s)"
  by (simp add: commit_prepare_def Let_def split_def)

lemma prepare_frame [simp]:
  "txn (snd (snd (commit_prepare x s))) = (txn s)\<lparr>entries := []\<rparr>"
  "umem (snd (snd (commit_prepare x s))) = umem s"
  "n_dropped (peers (snd (snd (commit_prepare x s))) q) = n_dropped (peers s q)"
  by (simp_all add: commit_prepare_def Let_def split_def)

lemma commit_unfold:
  "entries (txn s) \<noteq> [] \<Longrightarrow>
     bus1_transaction_commit x s =
       commit_consume_pass x (entries (txn s)) (fst (snd (commit_prepare x s))) 0
         (snd (snd (commit_prepare x s)))"
  by (simp add: bus1_transaction_commit_def split_def Let_def commit_prepare_def)

lemma prepare_spec:
  "\<exists>ws sevs yevs clk1.
     length ws = length (entries (txn s)) \<and>
     spec_staging_pass (tick_step x) (zip (entries (txn s)) ws)
         (clocks s (peer (txn s)) + tick_step x)
         ((clocks s)(peer (txn s) := clocks s (peer (txn s)) + tick_step x)) =
       (sevs, fst (snd (commit_prepare x s)), clk1) \<and>
     spec_sync_pass (entries (txn s)) (fst (snd (commit_prepare x s))) clk1 =
       (yevs, clocks (snd (snd (commit_prepare x s)))) \<and>
     trace (snd (snd (commit_prepare x s))) = trace s @
       [MutexLock (peer (txn s)),
        QueueTick (peer (txn s)) (clocks s (peer (txn s)) + tick_step x),
        MutexUnlock (peer (txn s))] @ sevs @ yevs"
proof -
  let ?es = "entries (txn s)"
  let ?c0 = "fst (commit_begin x s)" and ?s3 = "snd (commit_begin x s)"
  let ?t0 = "fst (commit_stage_pass x ?es ?c0 ?s3)"
  let ?s4 = "snd (commit_stage_pass x ?es ?c0 ?s3)"
  obtain ws sevs where st: "length ws = length ?es" "trace ?s4 = trace ?s3 @ sevs"
    "spec_staging_pass (tick_step x) (zip ?es ws) ?c0 (clocks ?s3) = (sevs, ?t0, clocks ?s4)"
    using stage_pass_spec by blast
  obtain yevs where sy: "trace (commit_sync_pass ?es ?t0 ?s4) = trace ?s4 @ yevs"
    "spec_sync_pass ?es ?t0 (clocks ?s4) = (yevs, clocks (commit_sync_pass ?es ?t0 ?s4))"
    using sync_pass_spec by blast
  show ?thesis
    apply (rule exI [of _ ws], rule exI [of _ sevs], rule exI [of _ yevs])
    apply (rule exI [of _ "clocks ?s4"])
    using st sy
    by (simp add: commit_prepare_def Let_def split_def begin_fst begin_clocks begin_trace)
qed

lemma map_zip_entries:
  "length ws = length es \<Longrightarrow>
     map (\<lambda>((m, d), w). (m, raw_peer d)) (zip es ws) = map (\<lambda>(m, d). (m, raw_peer d)) es"
  by (induction ws es rule: list_induct2) auto

lemma prepare_log:
  "\<exists>pre. trace (snd (snd (commit_prepare x s))) = trace s @ pre \<and>
     \<not> list_ex is_put_user pre \<and> \<not> list_ex is_consume pre \<and> \<not> list_ex is_dest_destroy pre \<and>
     staged_nodes pre = map (\<lambda>(m, d). (m, raw_peer d)) (entries (txn s)) \<and>
     (\<forall>(m, d) \<in> set (entries (txn s)).
        QueueSync (raw_peer d) (fst (snd (commit_prepare x s))) \<in> set pre)"
proof -
  let ?es = "entries (txn s)" and ?p = "peer (txn s)"
  let ?c0 = "clocks s ?p + tick_step x"
  obtain ws sevs yevs clk1 where
    a: "length ws = length ?es"
       "spec_staging_pass (tick_step x) (zip ?es ws) ?c0 ((clocks s)(?p := ?c0)) =
          (sevs, fst (snd (commit_prepare x s)), clk1)"
       "spec_sync_pass ?es (fst (snd (commit_prepare x s))) clk1 =
          (yevs, clocks (snd (snd (commit_prepare x s))))"
       "trace (snd (snd (commit_prepare x s))) = trace s @
          [MutexLock ?p, QueueTick ?p ?c0, MutexUnlock ?p] @ sevs @ yevs"
    using prepare_spec by blast
  have z: "map (\<lambda>((m, d), w). (m, raw_peer d)) (zip ?es ws) = map (\<lambda>(m, d). (m, raw_peer d)) ?es"
    using a(1) by (rule map_zip_entries)
  show ?thesis
    apply (rule exI [of _ "[MutexLock ?p, QueueTick ?p ?c0, MutexUnlock ?p] @ sevs @ yevs"])
    using a(4) spec_staging_props [OF a(2)] spec_sync_props [OF a(3)] z
    by auto
qed

lemma prepare_clock_bound:
  "(m, d) \<in> set (entries (txn s)) \<Longrightarrow>
     fst (snd (commit_prepare x s)) \<le> clocks (snd (snd (commit_prepare x s))) (raw_peer d)"
  by (force simp add: commit_prepare_def Let_def split_def sync_pass_clocks)

section \<open>Claims on the commit protocol\<close>

lemmas example_defs = x0_def s0_def s1_def s2_def dA_def dB_def p0_def

lemmas eval_defs = commit_prepare_def commit_begin_def commit_stage_entry_def
  commit_sync_entry_def bus1_transaction_commit_def bus1_transaction_consume_def
  consume_enter_def consume_tick_sender_def consume_sync_dest_def consume_writeback_def
  consume_link_def prim_defs emit_def clocks_def Let_def split_def

lemma s1_prepare_ts: "fst (snd (commit_prepare x0 s1)) = 4"
  by (simp add: eval_defs example_defs)

lemma s2_prepare_ts: "fst (snd (commit_prepare x0 s2)) = 14"
  by (simp add: eval_defs example_defs)

lemma s2_entries: "entries (txn s2) = [(11, dB), (10, dA)]"
  by (simp add: example_defs)

text \<open>Claim C3. \<^verbatim>\<open>bus1_transaction_commit\<close> on a non-empty entries list first ticks the
  sender's clock under the sender's lock; then performs exactly the operations of the
  staging pass of the specification (for every entry in list order, under the
  destination's lock: sync with \<open>t0\<close>, tick giving the new \<open>t0\<close>, stage at \<open>t0 - 1\<close>),
  with \<open>ws\<close> the answers of the stages; then exactly the operations of the sync pass
  (for every entry, sync with the final \<open>t0\<close>); the clocks are then those of the
  specification; and only then runs the commit pass, from that state and with the
  final \<open>t0\<close>, whose log follows and holds every call of
  \<^verbatim>\<open>bus1_transaction_consume\<close>.\<close>

theorem commit_three_pass_protocol:
  assumes "entries (txn s) \<noteq> []"
  shows "\<exists>ws stage_evs t0 clk1 sync_evs clk2 after_sync post.
     length ws = length (entries (txn s)) \<and>
     spec_staging_pass (tick_step x) (zip (entries (txn s)) ws)
         (clocks s (peer (txn s)) + tick_step x)
         ((clocks s)(peer (txn s) := clocks s (peer (txn s)) + tick_step x)) =
       (stage_evs, t0, clk1) \<and>
     spec_sync_pass (entries (txn s)) t0 clk1 = (sync_evs, clk2) \<and>
     trace after_sync = trace s @
       [MutexLock (peer (txn s)),
        QueueTick (peer (txn s)) (clocks s (peer (txn s)) + tick_step x),
        MutexUnlock (peer (txn s))] @ stage_evs @ sync_evs \<and>
     clocks after_sync = clk2 \<and>
     bus1_transaction_commit x s = commit_consume_pass x (entries (txn s)) t0 0 after_sync \<and>
     trace (snd (bus1_transaction_commit x s)) = trace after_sync @ post \<and>
     filter is_consume post = map (\<lambda>(m, d). Consume m d t0) (entries (txn s))"
proof -
  let ?t0 = "fst (snd (commit_prepare x s))" and ?s2 = "snd (snd (commit_prepare x s))"
  let ?es = "entries (txn s)" and ?p = "peer (txn s)"
  let ?c0 = "clocks s ?p + tick_step x"
  have u: "bus1_transaction_commit x s = commit_consume_pass x ?es ?t0 0 ?s2"
    using assms by (rule commit_unfold)
  obtain ws sevs yevs clk1 where
    a: "length ws = length ?es"
       "spec_staging_pass (tick_step x) (zip ?es ws) ?c0 ((clocks s)(?p := ?c0)) =
          (sevs, ?t0, clk1)"
       "spec_sync_pass ?es ?t0 clk1 = (yevs, clocks ?s2)"
       "trace ?s2 = trace s @ [MutexLock ?p, QueueTick ?p ?c0, MutexUnlock ?p] @ sevs @ yevs"
    using prepare_spec by blast
  obtain post where q: "trace (snd (commit_consume_pass x ?es ?t0 0 ?s2)) = trace ?s2 @ post"
    "filter is_consume post = map (\<lambda>(m, d). Consume m d ?t0) ?es"
    using consume_pass_log by blast
  show ?thesis
    apply (rule exI [of _ ws], rule exI [of _ sevs], rule exI [of _ ?t0], rule exI [of _ clk1])
    apply (rule exI [of _ yevs], rule exI [of _ "clocks ?s2"], rule exI [of _ ?s2])
    apply (rule exI [of _ post])
    using a q u by simp
qed

text \<open>The two-entry send has a non-empty entries list; its sender's clock is 0 and ticks
  to 2.\<close>

theorem commit_three_pass_protocol_witness:
  "entries (txn s2) \<noteq> [] \<and>
   (\<exists>ws stage_evs t0 clk1 sync_evs clk2 after_sync post.
     length ws = 2 \<and>
     spec_staging_pass 2 (zip [(11, dB), (10, dA)] ws) 2 ((clocks s2)(1 := 2)) =
       (stage_evs, t0, clk1) \<and>
     spec_sync_pass [(11, dB), (10, dA)] t0 clk1 = (sync_evs, clk2) \<and>
     trace after_sync =
       [MutexLock 1, QueueTick 1 2, MutexUnlock 1] @ stage_evs @ sync_evs \<and>
     clocks after_sync = clk2 \<and>
     bus1_transaction_commit x0 s2 =
       commit_consume_pass x0 [(11, dB), (10, dA)] t0 0 after_sync \<and>
     trace (snd (bus1_transaction_commit x0 s2)) = trace after_sync @ post \<and>
     filter is_consume post = [Consume 11 dB t0, Consume 10 dA t0])"
proof -
  have h: "entries (txn s2) \<noteq> []" by (simp add: s2_entries)
  have c: "clocks s2 (Suc 0) = 0" "peer (txn s2) = 1" "tick_step x0 = 2" "trace s2 = []"
    by (simp_all add: example_defs clocks_def)
  show ?thesis
    using commit_three_pass_protocol [OF h, of x0] h
    by (simp add: s2_entries c numeral_2_eq_2 del: spec_sync_pass.simps commit_consume_pass.simps)
qed

section \<open>Lemmas on teardown\<close>

lemma destroy_entry_frame [simp]:
  "txn (destroy_entry x m d l s) = (txn s)\<lparr>entries := l\<rparr>"
  "umem (destroy_entry x m d l s) = umem s"
  "peers (destroy_entry x m d l s) = peers s"
  by (simp_all add: destroy_entry_def prim_defs Let_def split_def)

lemma destroy_entry_msgs:
  "msgs (destroy_entry x m d l s) = (msgs s)(m := (msgs s m)\<lparr>qnode := None, slice := False\<rparr>)"
  by (simp add: destroy_entry_def prim_defs Let_def split_def)

lemma destroy_entry_trace:
  "\<exists>w. trace (destroy_entry x m d l s) = trace s @ teardown_entry_log ((m, d), w)"
  by (simp add: destroy_entry_def prim_defs Let_def split_def) blast

lemma destroy_entries_frame [simp]:
  "umem (destroy_entries x es s) = umem s \<and> peers (destroy_entries x es s) = peers s \<and>
   txn (destroy_entries x es s) = (txn s)\<lparr>entries := (if es = [] then entries (txn s) else [])\<rparr>"
  by (induction es arbitrary: s) auto

lemma destroy_entries_trace:
  "\<exists>ws. length ws = length es \<and>
     trace (destroy_entries x es s) = trace s @ concat (map teardown_entry_log (zip es ws))"
proof (induction es arbitrary: s)
  case Nil
  then show ?case by simp
next
  case (Cons e es)
  obtain m d where e: "e = (m, d)" by (cases e)
  let ?s = "destroy_entry x m d es s"
  obtain w where w: "trace ?s = trace s @ teardown_entry_log ((m, d), w)"
    using destroy_entry_trace by blast
  from Cons.IH [of ?s] obtain ws where ih: "length ws = length es"
    "trace (destroy_entries x es ?s) = trace ?s @ concat (map teardown_entry_log (zip es ws))"
    by blast
  show ?case
    apply (rule exI [of _ "w # ws"])
    using w ih by (simp add: e del: teardown_entry_log.simps)
qed

lemma destroy_entries_msgs:
  "(m, d) \<in> set es \<Longrightarrow>
     qnode (msgs (destroy_entries x es s) m) = None \<and> \<not> slice (msgs (destroy_entries x es s) m)"
proof (induction es arbitrary: s)
  case Nil
  then show ?case by simp
next
  case (Cons e es)
  obtain m1 d1 where e: "e = (m1, d1)" by (cases e)
  have keep: "qnode (msgs (destroy_entries x es s') m) = None \<and>
              \<not> slice (msgs (destroy_entries x es s') m)"
    if "qnode (msgs s' m) = None" "\<not> slice (msgs s' m)" for s'
    using that
  proof (induction es arbitrary: s')
    case Nil
    then show ?case by simp
  next
    case (Cons a es)
    obtain m2 d2 where a: "a = (m2, d2)" by (cases a)
    show ?case
      using Cons.prems by (simp add: a destroy_entry_msgs Cons.IH)
  qed
  show ?case
  proof (cases "(m, d) \<in> set es")
    case True
    then show ?thesis by (simp add: e Cons.IH)
  next
    case False
    with Cons.prems have "m1 = m" by (simp add: e)
    then show ?thesis by (simp add: e keep destroy_entry_msgs)
  qed
qed

lemma destroy_files_frame [simp]:
  "txn (destroy_files is s) = txn s \<and> umem (destroy_files is s) = umem s \<and>
   peers (destroy_files is s) = peers s \<and> msgs (destroy_files is s) = msgs s"
  by (induction "is" arbitrary: s) auto

lemma destroy_files_trace:
  "trace (destroy_files is s) =
     trace s @ map Fput (filter (\<lambda>f. f \<noteq> 0) (map (files (txn s)) is))"
  by (induction "is" arbitrary: s) auto

lemma destroy_trace:
  "\<exists>ws. length ws = length (entries (txn s)) \<and>
     trace (bus1_transaction_destroy x s) = trace s @
       concat (map teardown_entry_log (zip (entries (txn s)) ws)) @
       teardown_files_log (txn s) @ [TransferDestroy]"
proof -
  obtain ws where w: "length ws = length (entries (txn s))"
    "trace (destroy_entries x (entries (txn s)) s) =
       trace s @ concat (map teardown_entry_log (zip (entries (txn s)) ws))"
    using destroy_entries_trace by blast
  show ?thesis
    apply (rule exI [of _ ws])
    using w
    by (simp add: bus1_transaction_destroy_def Let_def destroy_files_trace teardown_files_log_def)
qed

lemma destroy_entries_empty [simp]:
  "entries (txn (bus1_transaction_destroy x s)) = []"
  by (simp add: bus1_transaction_destroy_def Let_def)

lemma commit_txn:
  "txn (snd (bus1_transaction_commit x s)) = (txn s)\<lparr>entries := []\<rparr>"
  by (cases "entries (txn s) = []") (simp_all add: commit_unfold, simp add: bus1_transaction_commit_def)

section \<open>Claims on teardown and construction\<close>

text \<open>Claim C9. \<^verbatim>\<open>bus1_transaction_free\<close> on a transaction (not \<^verbatim>\<open>NULL\<close>) does, for each
  listed entry in list order and with \<open>ws\<close> the answers of the removes: under the
  destination peer's lock, remove the node from the destination queue, wake the peer
  exactly when the remove reported a change, and deallocate the slice; then free the
  message and release the destination. After the entries it releases every file
  reference held in a slot below \<^verbatim>\<open>n_fds\<close>, then the handle-transfer descriptor, and
  frees the memory unless it is the stack buffer. Every listed node is then linked on no
  queue and has no slice. \<^verbatim>\<open>bus1_transaction_commit\<close> leaves the entries list empty, so
  a free after a commit touches no entry: it releases the files and the descriptor
  only.\<close>

theorem free_teardown:
  assumes "transaction \<noteq> 0"
  shows "(\<exists>ws. length ws = length (entries (txn s)) \<and>
            trace (bus1_transaction_free x transaction stack_buffer s) = trace s @
              concat (map teardown_entry_log (zip (entries (txn s)) ws)) @
              teardown_files_log (txn s) @ [TransferDestroy] @
              (if transaction \<noteq> stack_buffer then [Kfree transaction] else [])) \<and>
         (\<forall>(m, d) \<in> set (entries (txn s)).
            qnode (msgs (bus1_transaction_free x transaction stack_buffer s) m) = None \<and>
            \<not> slice (msgs (bus1_transaction_free x transaction stack_buffer s) m)) \<and>
         entries (txn (snd (bus1_transaction_commit x s))) = [] \<and>
         trace (bus1_transaction_free x transaction stack_buffer
                  (snd (bus1_transaction_commit x s))) =
           trace (snd (bus1_transaction_commit x s)) @
             teardown_files_log (txn s) @ [TransferDestroy] @
             (if transaction \<noteq> stack_buffer then [Kfree transaction] else [])"
proof -
  obtain ws where w: "length ws = length (entries (txn s))"
     "trace (bus1_transaction_destroy x s) = trace s @
       concat (map teardown_entry_log (zip (entries (txn s)) ws)) @
       teardown_files_log (txn s) @ [TransferDestroy]"
    using destroy_trace by blast
  have a: "\<exists>ws. length ws = length (entries (txn s)) \<and>
            trace (bus1_transaction_free x transaction stack_buffer s) = trace s @
              concat (map teardown_entry_log (zip (entries (txn s)) ws)) @
              teardown_files_log (txn s) @ [TransferDestroy] @
              (if transaction \<noteq> stack_buffer then [Kfree transaction] else [])"
    apply (rule exI [of _ ws])
    using w assms by (simp add: bus1_transaction_free_def Let_def)
  have m: "msgs (bus1_transaction_free x transaction stack_buffer s) =
           msgs (destroy_entries x (entries (txn s)) s)"
    using assms by (simp add: bus1_transaction_free_def bus1_transaction_destroy_def Let_def)
  have b: "\<forall>(m, d) \<in> set (entries (txn s)).
            qnode (msgs (bus1_transaction_free x transaction stack_buffer s) m) = None \<and>
            \<not> slice (msgs (bus1_transaction_free x transaction stack_buffer s) m)"
    unfolding m using destroy_entries_msgs by blast
  let ?c = "snd (bus1_transaction_commit x s)"
  have c: "entries (txn ?c) = []" by (simp add: commit_txn)
  obtain ws' where w': "length ws' = length (entries (txn ?c))"
     "trace (bus1_transaction_destroy x ?c) = trace ?c @
       concat (map teardown_entry_log (zip (entries (txn ?c)) ws')) @
       teardown_files_log (txn ?c) @ [TransferDestroy]"
    using destroy_trace by blast
  have f: "teardown_files_log (txn ?c) = teardown_files_log (txn s)"
    by (simp add: teardown_files_log_def commit_txn)
  have d: "trace (bus1_transaction_free x transaction stack_buffer ?c) =
           trace ?c @ teardown_files_log (txn s) @ [TransferDestroy] @
             (if transaction \<noteq> stack_buffer then [Kfree transaction] else [])"
    using w' c f assms by (simp add: bus1_transaction_free_def Let_def)
  show ?thesis using a b c d by blast
qed

text \<open>A free of the two-entry send, placed in its stack buffer at address 1000.\<close>

theorem free_teardown_witness:
  "(1000 :: nat) \<noteq> 0 \<and>
   (\<exists>ws. length ws = 2 \<and>
      trace (bus1_transaction_free x0 1000 1000 s2) =
        concat (map teardown_entry_log (zip [(11, dB), (10, dA)] ws)) @ [TransferDestroy]) \<and>
   qnode (msgs (bus1_transaction_free x0 1000 1000 s2) 11) = None \<and>
   \<not> slice (msgs (bus1_transaction_free x0 1000 1000 s2) 11) \<and>
   qnode (msgs (bus1_transaction_free x0 1000 1000 s2) 10) = None \<and>
   \<not> slice (msgs (bus1_transaction_free x0 1000 1000 s2) 10) \<and>
   entries (txn (snd (bus1_transaction_commit x0 s2))) = [] \<and>
   trace (bus1_transaction_free x0 1000 1000 (snd (bus1_transaction_commit x0 s2))) =
     trace (snd (bus1_transaction_commit x0 s2)) @ [TransferDestroy]"
proof -
  have h: "(1000 :: nat) \<noteq> 0" by simp
  have e: "entries (txn s2) = [(11, dB), (10, dA)]" "trace s2 = []"
    "teardown_files_log (txn s2) = []"
    by (simp_all add: s2_def s0_def p0_def teardown_files_log_def)
  show ?thesis
    using free_teardown [OF h, of s2 x0 1000]
    by (simp add: e numeral_2_eq_2 del: teardown_entry_log.simps)
qed

text \<open>Claim C4, at an input where the code departs from it. With \<^verbatim>\<open>n_vecs = 0\<close> and
  \<^verbatim>\<open>n_fds = 1\<close> the \<^verbatim>\<open>memset\<close> of \<^verbatim>\<open>bus1_transaction_init\<close> clears no slot: slot 0 of the
  files array keeps the 7 the memory held. The import of the only descriptor fails, so
  no file was imported; \<^verbatim>\<open>bus1_transaction_new_from_user\<close> returns the error, and the
  teardown it runs calls \<^verbatim>\<open>fput\<close> on the 7 of slot 0.\<close>

theorem init_leaves_file_slots_uncleared:
  "files (txn (bus1_transaction_init (o_raw_files oc_bad_fd) 1 p1 s0)) 0 = 7 \<and>
   fst (bus1_transaction_new_from_user x0 oc_bad_fd 1000 4096 1 p1 s0) = Inl (- 9) \<and>
   trace (snd (bus1_transaction_new_from_user x0 oc_bad_fd 1000 4096 1 p1 s0)) =
     [TransferInit 0, ImportVecs, TransferImport, ImportFd 0, Fput 7, TransferDestroy]"
  by (simp add: bus1_transaction_new_from_user_def bus1_transaction_size_def
      bus1_transaction_init_def bus1_transaction_import_vecs_def
      bus1_transaction_import_handles_def bus1_transaction_import_files_def
      bus1_transaction_free_def bus1_transaction_destroy_def
      x0_def oc_bad_fd_def p1_def s0_def p0_def emit_def Let_def)

section \<open>Lemmas on instantiation and on single entries\<close>

subsection \<open>Instantiation\<close>

lemmas inst_prim_defs = bus1_handle_dest_import_def bus1_message_new_def
  bus1_message_allocate_def bus1_pool_write_iovec_def bus1_handle_inflight_instantiate_def

lemma get_files_frame [simp]:
  "txn (get_files is s) = txn s \<and> umem (get_files is s) = umem s \<and>
   msgs (get_files is s) = msgs s \<and> peers (get_files is s) = peers s"
  by (induction "is" arbitrary: s) auto

lemma cws_refl [simp]: "continues_without_store s s"
  by (simp add: continues_without_store_def)

lemma cws_trans:
  "continues_without_store s s' \<Longrightarrow> continues_without_store s' s'' \<Longrightarrow>
     continues_without_store s s''"
  by (auto simp add: continues_without_store_def)

lemma cws_events:
  "trace s' = trace s @ evs \<Longrightarrow> \<not> list_ex is_put_user evs \<Longrightarrow> continues_without_store s s'"
  by (auto simp add: continues_without_store_def)

lemma get_files_trace: "continues_without_store s (get_files is s)"
proof (induction "is" arbitrary: s)
  case Nil
  then show ?case by simp
next
  case (Cons i "is")
  have h: "continues_without_store s (emit (GetFile (files (txn s) i)) s)"
    by (rule cws_events [of _ _ "[GetFile (files (txn s) i)]"]) simp_all
  show ?case
    using cws_trans [OF h Cons.IH] by simp
qed

lemma inst_error_frame [simp]:
  "txn (snd (instantiate_error m p r s)) = txn s"
  "umem (snd (instantiate_error m p r s)) = umem s"
  "peers (snd (instantiate_error m p r s)) = peers s"
  by (simp_all add: instantiate_error_def prim_defs Let_def)

lemma inst_error_fst:
  "fst (instantiate_error m p r s) = (if r < 0 then Inl r else Inr m)"
  by (simp add: instantiate_error_def Let_def)

lemma inst_error_msgs:
  "msgs (snd (instantiate_error m p r s)) = (msgs s)(m := (msgs s m)\<lparr>slice := False\<rparr>)"
  by (simp add: instantiate_error_def prim_defs Let_def)

lemma inst_error_trace: "continues_without_store s (snd (instantiate_error m p r s))"
  by (rule cws_events [of _ _ "[MutexLock p, MessageDeallocate m p, MutexUnlock p] @
        (if r < 0 then [MessageFree (Some m) p] else [])"])
     (simp_all add: instantiate_error_def prim_defs Let_def)

lemma inst_fill_frame [simp]:
  "txn (snd (instantiate_fill oc m p s)) = txn s"
  "umem (snd (instantiate_fill oc m p s)) = umem s"
  "peers (snd (instantiate_fill oc m p s)) = peers s"
  by (simp_all add: instantiate_fill_def inst_prim_defs Let_def split_def)

lemma inst_fill_trace: "continues_without_store s (snd (instantiate_fill oc m p s))"
proof -
  let ?s1 = "emit (PoolWrite m p) s"
  let ?s2 = "emit (InflightInstantiate m p) ?s1"
  have a1: "continues_without_store s ?s1"
    by (rule cws_events [of _ _ "[PoolWrite m p]"]) simp_all
  have a2: "continues_without_store s ?s2"
    by (rule cws_events [of _ _ "[PoolWrite m p, InflightInstantiate m p]"]) simp_all
  show ?thesis
    using cws_trans [OF a1 inst_error_trace] cws_trans [OF a2 inst_error_trace]
      cws_trans [OF a2 get_files_trace]
    by (simp add: instantiate_fill_def inst_prim_defs Let_def split_def)
qed

lemma instantiate_frame [simp]:
  "txn (snd (snd (bus1_transaction_instantiate x oc a s))) = txn s"
  "umem (snd (snd (bus1_transaction_instantiate x oc a s))) = umem s"
  "peers (snd (snd (bus1_transaction_instantiate x oc a s))) = peers s"
  by (simp_all add: bus1_transaction_instantiate_def inst_prim_defs prim_defs Let_def split_def
      split: sum.splits)

lemma instantiate_dest [simp]:
  "fst (snd (bus1_transaction_instantiate x oc a s)) = o_dest oc"
  by (simp add: bus1_transaction_instantiate_def inst_prim_defs prim_defs Let_def split_def
      split: sum.splits)

lemma instantiate_trace:
  "continues_without_store s (snd (snd (bus1_transaction_instantiate x oc a s)))"
proof (cases "o_message_new oc")
  case (Inl e)
  have "continues_without_store s (emit (DestImport a) s)"
       "continues_without_store s
          (bus1_message_free None (raw_peer (o_dest oc)) (emit (DestImport a) s))"
    by (rule cws_events [of _ _ "[DestImport a]"], simp, simp)
       (rule cws_events [of _ _ "[DestImport a, MessageFree None (raw_peer (o_dest oc))]"],
        simp add: prim_defs, simp)
  with Inl show ?thesis
    by (simp add: bus1_transaction_instantiate_def bus1_handle_dest_import_def Let_def split_def)
next
  case (Inr m)
  let ?p = "raw_peer (o_dest oc)"
  let ?silent = "flags (param (txn s)) AND BUS1_SEND_FLAG_SILENT x \<noteq> 0"
  let ?s5 = "mutex_unlock ?p (snd (bus1_message_allocate oc m ?p
               (mutex_lock ?p (bus1_message_new x ?silent m (emit (DestImport a) s)))))"
  have a0: "continues_without_store s (emit (DestImport a) s)"
    by (rule cws_events [of _ _ "[DestImport a]"]) simp_all
  have a5: "continues_without_store s ?s5"
    by (rule cws_events [of _ _ "[DestImport a, MessageNew m ?silent, MutexLock ?p,
              MessageAllocate m ?p, MutexUnlock ?p]"])
       (simp_all add: inst_prim_defs prim_defs)
  show ?thesis
    using a0 Inr cws_trans [OF a5 inst_error_trace] cws_trans [OF a5 inst_fill_trace]
    by (simp add: bus1_transaction_instantiate_def bus1_handle_dest_import_def Let_def split_def)
qed

lemma instantiate_dropped:
  assumes "0 \<le> o_dest_import oc" "o_message_new oc = Inr m" "o_allocate oc < 0"
  shows "fst (bus1_transaction_instantiate x oc a s) =
           (if flags (param (txn s)) AND BUS1_SEND_FLAG_CONTINUE x \<noteq> 0 then Inr m
            else Inl (o_allocate oc))"
    and "msgs (snd (snd (bus1_transaction_instantiate x oc a s))) m =
           \<lparr>slice = False, qnode = None, destination = BUS1_HANDLE_INVALID x\<rparr>"
  using assms
  by (simp_all add: bus1_transaction_instantiate_def inst_prim_defs prim_defs Let_def split_def
      inst_error_fst inst_error_msgs)

subsection \<open>What a commit does to single entries\<close>

lemma writeback_umem_mapped:
  "(umem (snd (consume_writeback x m d ts s)) a = None) = (umem s a = None)"
  by (simp add: consume_writeback_def prim_defs Let_def split_def)

lemma consume_umem_mapped:
  "(umem (snd (bus1_transaction_consume x m d ts s)) a = None) = (umem s a = None)"
  by (simp add: bus1_transaction_consume_def Let_def split_def writeback_umem_mapped
      consume_tail_defs)

lemma consume_slice_mono:
  "\<not> slice (msgs s m') \<Longrightarrow> \<not> slice (msgs (snd (bus1_transaction_consume x m d ts s)) m')"
  by (cases "m' = m")
     (simp_all add: bus1_transaction_consume_def Let_def split_def link_msgs_same link_msgs_other
      consume_tail_defs)

lemma consume_pass_Cons:
  "commit_consume_pass x ((m, d) # es) ts res s =
     commit_consume_pass x es ts
       (if fst (bus1_transaction_consume x m d ts s) = - EFAULT then - EFAULT else res)
       (snd (bus1_transaction_consume x m d ts s))"
  by (simp add: split_def Let_def)

lemma consume_pass_msgs_other:
  "m' \<notin> fst ` set es \<Longrightarrow> msgs (snd (commit_consume_pass x es ts res s)) m' = msgs s m'"
proof (induction es arbitrary: res s)
  case Nil
  then show ?case by simp
next
  case (Cons e es)
  obtain m d where e: "e = (m, d)" by (cases e)
  from Cons.prems have "m' \<noteq> m" "m' \<notin> fst ` set es" by (auto simp add: e)
  then show ?case
    unfolding e consume_pass_Cons by (simp add: Cons.IH consume_msgs_other)
qed

lemma consume_pass_umem_mapped:
  "(umem (snd (commit_consume_pass x es ts res s)) a = None) = (umem s a = None)"
proof (induction es arbitrary: res s)
  case Nil
  then show ?case by simp
next
  case (Cons e es)
  obtain m d where e: "e = (m, d)" by (cases e)
  show ?case
    unfolding e consume_pass_Cons by (simp add: Cons.IH consume_umem_mapped)
qed

lemma consume_pass_latched:
  "fst (commit_consume_pass x es ts (- EFAULT) s) = - EFAULT"
  using consume_pass_log [of x es ts "- EFAULT" s] by auto

lemma consume_pass_result_cases:
  "fst (commit_consume_pass x es ts res s) = res \<or>
   fst (commit_consume_pass x es ts res s) = - EFAULT"
  using consume_pass_log [of x es ts res s] by auto

text \<open>An entry cannot fault when its id pointer is null or mapped, or when it has a
  slice and its node is not queued.\<close>

lemma consume_pass_no_fault:
  assumes "distinct (map fst es)"
    and "\<forall>(m, d) \<in> set es. idp d = 0 \<or> umem s (idp d) \<noteq> None \<or>
            (slice (msgs s m) \<and> qnode (msgs s m) = None)"
  shows "fst (commit_consume_pass x es ts res s) = res"
  using assms
proof (induction es arbitrary: res s)
  case Nil
  then show ?case by simp
next
  case (Cons e es)
  obtain m d where e: "e = (m, d)" by (cases e)
  let ?c = "bus1_transaction_consume x m d ts s"
  from Cons.prems have hd: "idp d = 0 \<or> umem s (idp d) \<noteq> None \<or>
            (slice (msgs s m) \<and> qnode (msgs s m) = None)"
    by (simp add: e)
  have r: "fst ?c \<noteq> - EFAULT"
    using hd by (auto simp add: consume_result EFAULT_def EHOSTUNREACH_def)
  have d: "distinct (map fst es)" "m \<notin> fst ` set es"
    using Cons.prems(1) by (auto simp add: e)
  have tl: "\<forall>(m', d') \<in> set es. idp d' = 0 \<or> umem (snd ?c) (idp d') \<noteq> None \<or>
            (slice (msgs (snd ?c) m') \<and> qnode (msgs (snd ?c) m') = None)"
  proof -
    have "idp d' = 0 \<or> umem (snd ?c) (idp d') \<noteq> None \<or>
            (slice (msgs (snd ?c) m') \<and> qnode (msgs (snd ?c) m') = None)"
      if in_es: "(m', d') \<in> set es" for m' d'
    proof -
      from in_es d(2) have ne: "m' \<noteq> m" by force
      from Cons.prems(2) in_es have "idp d' = 0 \<or> umem s (idp d') \<noteq> None \<or>
            (slice (msgs s m') \<and> qnode (msgs s m') = None)"
        by (auto simp add: e)
      then show ?thesis
        using ne consume_umem_mapped [of x m d ts s "idp d'"]
        by (auto simp add: consume_msgs_other)
    qed
    then show ?thesis by blast
  qed
  show ?case
    unfolding e consume_pass_Cons using r Cons.IH [OF d(1) tl] by simp
qed

lemma consume_pass_faults:
  assumes "(m, d) \<in> set es" "\<not> slice (msgs s m)" "idp d \<noteq> 0" "umem s (idp d) = None"
  shows "fst (commit_consume_pass x es ts res s) = - EFAULT"
  using assms
proof (induction es arbitrary: res s)
  case Nil
  then show ?case by simp
next
  case (Cons e es)
  obtain m1 d1 where e: "e = (m1, d1)" by (cases e)
  let ?c = "bus1_transaction_consume x m1 d1 ts s"
  show ?case
  proof (cases "(m, d) = (m1, d1)")
    case True
    with Cons.prems have "fst ?c = - EFAULT" by (simp add: consume_result)
    then show ?thesis
      unfolding e consume_pass_Cons by (simp add: consume_pass_latched)
  next
    case False
    with Cons.prems have in_es: "(m, d) \<in> set es" by (auto simp add: e)
    have "fst (commit_consume_pass x es ts r (snd ?c)) = - EFAULT" for r
      using Cons.IH [OF in_es] Cons.prems consume_slice_mono consume_umem_mapped by blast
    then show ?thesis
      unfolding e consume_pass_Cons by simp
  qed
qed

lemma consume_pass_sliceless_unlinked:
  assumes "m \<in> fst ` set es" "\<not> slice (msgs s m)"
  shows "qnode (msgs (snd (commit_consume_pass x es ts res s)) m) = None"
  using assms
proof (induction es arbitrary: res s)
  case Nil
  then show ?case by simp
next
  case (Cons e es)
  obtain m1 d1 where e: "e = (m1, d1)" by (cases e)
  let ?c = "bus1_transaction_consume x m1 d1 ts s"
  have sl: "\<not> slice (msgs (snd ?c) m)" using Cons.prems(2) by (rule consume_slice_mono)
  show ?case
  proof (cases "m \<in> fst ` set es")
    case True
    then show ?thesis
      unfolding e consume_pass_Cons using Cons.IH sl by simp
  next
    case False
    with Cons.prems(1) have "m1 = m" by (simp add: e)
    then have "qnode (msgs (snd ?c) m) = None"
      using Cons.prems(2) consume_unlinked by simp
    then show ?thesis
      unfolding e consume_pass_Cons using False by (simp add: consume_pass_msgs_other)
  qed
qed

lemma consume_pass_n_dropped:
  assumes "distinct (map fst es)"
  shows "n_dropped (peers (snd (commit_consume_pass x es ts res s)) p) =
           n_dropped (peers s p) +
           of_nat (length (filter (\<lambda>(m, d). \<not> slice (msgs s m) \<and> raw_peer d = p) es))"
  using assms
proof (induction es arbitrary: res s)
  case Nil
  then show ?case by simp
next
  case (Cons e es)
  obtain m d where e: "e = (m, d)" by (cases e)
  let ?c = "bus1_transaction_consume x m d ts s"
  have d: "distinct (map fst es)" "m \<notin> fst ` set es"
    using Cons.prems by (auto simp add: e)
  have f: "filter (\<lambda>(m', d'). \<not> slice (msgs (snd ?c) m') \<and> raw_peer d' = p) es =
           filter (\<lambda>(m', d'). \<not> slice (msgs s m') \<and> raw_peer d' = p) es"
  proof (rule filter_cong [OF refl])
    fix a assume "a \<in> set es"
    with d(2) have "fst a \<noteq> m" by force
    then show "(case a of (m', d') \<Rightarrow> \<not> slice (msgs (snd ?c) m') \<and> raw_peer d' = p) =
               (case a of (m', d') \<Rightarrow> \<not> slice (msgs s m') \<and> raw_peer d' = p)"
      by (cases a) (simp add: consume_msgs_other)
  qed
  show ?case
    unfolding e consume_pass_Cons
    by (simp add: Cons.IH [OF d(1)] f consume_n_dropped)
qed

subsection \<open>What the passes before the commit pass do to the messages\<close>

lemma stage_pass_slice:
  "slice (msgs (snd (commit_stage_pass x es t s)) m) = slice (msgs s m)"
proof (induction es arbitrary: t s)
  case Nil
  then show ?case by simp
next
  case (Cons e es)
  obtain m1 d1 where e: "e = (m1, d1)" by (cases e)
  show ?case
    by (simp add: e split_def Let_def Cons.IH stage_entry_msgs)
qed

lemma stage_pass_msgs_other:
  "m \<notin> fst ` set es \<Longrightarrow> msgs (snd (commit_stage_pass x es t s)) m = msgs s m"
proof (induction es arbitrary: t s)
  case Nil
  then show ?case by simp
next
  case (Cons e es)
  obtain m1 d1 where e: "e = (m1, d1)" by (cases e)
  from Cons.prems have "m \<noteq> m1" "m \<notin> fst ` set es" by (auto simp add: e)
  then show ?case
    by (simp add: e split_def Let_def Cons.IH stage_entry_msgs)
qed

lemma stage_pass_queued:
  "distinct (map fst es) \<Longrightarrow> (m, d) \<in> set es \<Longrightarrow>
     \<exists>t'. qnode (msgs (snd (commit_stage_pass x es t s)) m) = Some (raw_peer d, t')"
proof (induction es arbitrary: t s)
  case Nil
  then show ?case by simp
next
  case (Cons e es)
  obtain m1 d1 where e: "e = (m1, d1)" by (cases e)
  have d: "distinct (map fst es)" "m1 \<notin> fst ` set es"
    using Cons.prems(1) by (auto simp add: e)
  show ?case
  proof (cases "(m, d) \<in> set es")
    case True
    then show ?thesis
      using Cons.IH [OF d(1)] by (simp add: e split_def Let_def)
  next
    case False
    with Cons.prems(2) have eq: "m1 = m" "d1 = d" by (simp_all add: e)
    show ?thesis
      using d(2) by (simp add: e eq split_def Let_def stage_pass_msgs_other stage_entry_msgs)
  qed
qed

lemma prepare_slice:
  "slice (msgs (snd (snd (commit_prepare x s))) m) = slice (msgs s m)"
  by (simp add: commit_prepare_def Let_def split_def stage_pass_slice)

lemma prepare_queued:
  "distinct (map fst (entries (txn s))) \<Longrightarrow> (m, d) \<in> set (entries (txn s)) \<Longrightarrow>
     \<exists>t'. qnode (msgs (snd (snd (commit_prepare x s))) m) = Some (raw_peer d, t')"
  by (simp add: commit_prepare_def Let_def split_def stage_pass_queued)

section \<open>Claims on dropped destinations\<close>

lemmas inst_eval_defs = bus1_transaction_instantiate_for_id_def bus1_transaction_instantiate_def
  instantiate_error_def instantiate_fill_def inst_prim_defs bus1_handle_dest_destroy_def

lemma consume_sliceless_store:
  "\<not> slice (msgs s m) \<Longrightarrow> idp d \<noteq> 0 \<Longrightarrow>
     \<exists>evs. trace (snd (bus1_transaction_consume x m d ts s)) = trace s @ evs \<and>
       PutUser (idp d) (BUS1_HANDLE_INVALID x) (umem s (idp d) = None) \<in> set evs"
proof -
  assume a: "\<not> slice (msgs s m)" "idp d \<noteq> 0"
  obtain evs where e: "trace (snd (consume_enter x m d ts s)) = trace s @ Consume m d ts # evs"
    using enter_trace by blast
  let ?s4 = "snd (consume_enter x m d ts s)" and ?ts = "fst (consume_enter x m d ts s)"
  let ?wb = "consume_writeback x m d ?ts ?s4"
  obtain w where w: "trace (snd (consume_link x m (raw_peer d) (fst (fst ?wb)) ?ts (snd ?wb))) =
     trace (snd ?wb) @
     (if fst (fst ?wb) \<noteq> BUS1_HANDLE_INVALID x then
        [QueueStage (raw_peer d) m ?ts w] @ (if w then [PeerWake (raw_peer d)] else [])
      else [QueueRemove (raw_peer d) m w, MessageDeallocate m (raw_peer d)])"
    using link_trace by blast
  show ?thesis
    using a e w
    by (simp add: bus1_transaction_consume_def Let_def split_def writeback_trace writeback_ident
        consume_tail_defs)
qed

lemma consume_pass_extends:
  "\<exists>evs. trace (snd (commit_consume_pass x es ts res s)) = trace s @ evs"
  using consume_pass_log by blast

lemma consume_extends:
  "\<exists>evs. trace (snd (bus1_transaction_consume x m d ts s)) = trace s @ evs"
  using consume_log by blast

lemma consume_pass_writes_invalid:
  assumes "(m, d) \<in> set es" "\<not> slice (msgs s m)" "idp d \<noteq> 0"
  shows "\<exists>evs. trace (snd (commit_consume_pass x es ts res s)) = trace s @ evs \<and>
       PutUser (idp d) (BUS1_HANDLE_INVALID x) (umem s (idp d) = None) \<in> set evs"
  using assms
proof (induction es arbitrary: res s)
  case Nil
  then show ?case by simp
next
  case (Cons e es)
  obtain m1 d1 where e: "e = (m1, d1)" by (cases e)
  let ?c = "bus1_transaction_consume x m1 d1 ts s"
  let ?r = "if fst ?c = - EFAULT then - EFAULT else res"
  show ?case
  proof (cases "(m, d) = (m1, d1)")
    case True
    obtain evs1 where e1: "trace (snd ?c) = trace s @ evs1"
      "PutUser (idp d) (BUS1_HANDLE_INVALID x) (umem s (idp d) = None) \<in> set evs1"
      using consume_sliceless_store [OF Cons.prems(2,3), of x ts] True by auto
    obtain evs2 where e2: "trace (snd (commit_consume_pass x es ts ?r (snd ?c))) =
        trace (snd ?c) @ evs2"
      using consume_pass_extends by blast
    show ?thesis
      unfolding e consume_pass_Cons
      by (rule exI [of _ "evs1 @ evs2"]) (use e1 e2 in simp)
  next
    case False
    with Cons.prems have in_es: "(m, d) \<in> set es" by (auto simp add: e)
    obtain evs1 where e1: "trace (snd ?c) = trace s @ evs1"
      using consume_extends by blast
    have sl: "\<not> slice (msgs (snd ?c) m)" using Cons.prems(2) by (rule consume_slice_mono)
    from Cons.IH [OF in_es sl Cons.prems(3), of ?r] obtain evs2 where
      e2: "trace (snd (commit_consume_pass x es ts ?r (snd ?c))) = trace (snd ?c) @ evs2"
          "PutUser (idp d) (BUS1_HANDLE_INVALID x) (umem (snd ?c) (idp d) = None) \<in> set evs2"
      by blast
    show ?thesis
      unfolding e consume_pass_Cons
      by (rule exI [of _ "evs1 @ evs2"]) (use e1 e2 in \<open>simp add: consume_umem_mapped\<close>)
  qed
qed

lemma commit_result_cases:
  "fst (bus1_transaction_commit x s) = 0 \<or> fst (bus1_transaction_commit x s) = - EFAULT"
  by (cases "entries (txn s) = []")
     (simp add: bus1_transaction_commit_def, simp add: commit_unfold consume_pass_result_cases)

text \<open>Claim C5 as stated fails at this input. With
  \<^verbatim>\<open>BUS1_SEND_FLAG_CONTINUE\<close> set and the slice allocation failing,
  \<^verbatim>\<open>bus1_transaction_instantiate_for_id\<close> returns 0 and links the sliceless entry; its id
  pointer (address 200) is not mapped, so the store of \<^verbatim>\<open>BUS1_HANDLE_INVALID\<close> in the
  commit pass faults and \<^verbatim>\<open>bus1_transaction_commit\<close> returns \<open>-EFAULT\<close>: the dropped entry
  makes the commit return an error.\<close>

theorem continue_drop_commit_faults:
  "flags (param (txn s0c)) AND BUS1_SEND_FLAG_CONTINUE x0 \<noteq> 0 \<and>
   o_allocate oc_quota < 0 \<and>
   fst (bus1_transaction_instantiate_for_id x0 oc_quota 200 s0c) = 0 \<and>
   entries (txn (snd (bus1_transaction_instantiate_for_id x0 oc_quota 200 s0c))) = [(11, dB)] \<and>
   \<not> slice (msgs (snd (bus1_transaction_instantiate_for_id x0 oc_quota 200 s0c)) 11) \<and>
   fst (bus1_transaction_commit x0
          (snd (bus1_transaction_instantiate_for_id x0 oc_quota 200 s0c))) = - EFAULT"
proof -
  let ?c = "snd (bus1_transaction_instantiate_for_id x0 oc_quota 200 s0c)"
  have i: "flags (param (txn s0c)) AND BUS1_SEND_FLAG_CONTINUE x0 \<noteq> 0"
    "o_allocate oc_quota < 0"
    "fst (bus1_transaction_instantiate_for_id x0 oc_quota 200 s0c) = 0"
    "entries (txn ?c) = [(11, dB)]" "\<not> slice (msgs ?c 11)" "umem ?c 200 = None"
    by (simp_all add: inst_eval_defs prim_defs emit_def Let_def split_def
        x0_def s0c_def s0_def p0_def oc_quota_def dB_def)
  have "(11, dB) \<in> set (entries (txn ?c))" "idp dB \<noteq> 0" "umem ?c (idp dB) = None"
    using i by (simp_all add: dB_def)
  then have "fst (commit_consume_pass x0 (entries (txn ?c)) (fst (snd (commit_prepare x0 ?c))) 0
                (snd (snd (commit_prepare x0 ?c)))) = - EFAULT"
    using i(5) by (intro consume_pass_faults [of 11 dB]) (simp_all add: prepare_slice)
  then have "fst (bus1_transaction_commit x0 ?c) = - EFAULT"
    using i(4) by (simp add: commit_unfold)
  with i show ?thesis by simp
qed

text \<open>Claim C5 as amended. When the slice allocation fails for a destination whose import
  and message allocation succeeded: with \<^verbatim>\<open>BUS1_SEND_FLAG_CONTINUE\<close>,
  \<^verbatim>\<open>bus1_transaction_instantiate_for_id\<close> returns 0 and links a sliceless entry whose
  node is queued nowhere; without the flag it returns the error of the allocation and
  links nothing. At a commit of distinct messages, a listed sliceless entry ends linked on
  no queue; every sliceless entry adds exactly one to the dropped-counter of its
  destination, and nothing else changes a dropped-counter; the commit returns 0 or
  \<open>-EFAULT\<close>, and it returns 0 when every id pointer of the list is null or mapped. So a
  drop is no error of its own; only the store of \<^verbatim>\<open>BUS1_HANDLE_INVALID\<close> to the id pointer
  of the dropped entry can fault.\<close>

theorem continue_drop_is_silent:
  assumes "0 \<le> o_dest_import oc" "o_message_new oc = Inr m" "o_allocate oc < 0"
    and "(m, d) \<in> set (entries (txn c))" "\<not> slice (msgs c m)"
        "distinct (map fst (entries (txn c)))"
  shows "(if flags (param (txn s)) AND BUS1_SEND_FLAG_CONTINUE x \<noteq> 0
          then fst (bus1_transaction_instantiate_for_id x oc a s) = 0 \<and>
               entries (txn (snd (bus1_transaction_instantiate_for_id x oc a s))) =
                 (m, o_dest oc) # entries (txn s) \<and>
               \<not> slice (msgs (snd (bus1_transaction_instantiate_for_id x oc a s)) m) \<and>
               qnode (msgs (snd (bus1_transaction_instantiate_for_id x oc a s)) m) = None
          else fst (bus1_transaction_instantiate_for_id x oc a s) = o_allocate oc \<and>
               entries (txn (snd (bus1_transaction_instantiate_for_id x oc a s))) =
                 entries (txn s)) \<and>
         qnode (msgs (snd (bus1_transaction_commit x c)) m) = None \<and>
         (\<forall>p. n_dropped (peers (snd (bus1_transaction_commit x c)) p) =
                n_dropped (peers c p) +
                of_nat (length (filter (\<lambda>(m', d'). \<not> slice (msgs c m') \<and> raw_peer d' = p)
                                  (entries (txn c))))) \<and>
         (fst (bus1_transaction_commit x c) = 0 \<or> fst (bus1_transaction_commit x c) = - EFAULT) \<and>
         ((\<forall>(m', d') \<in> set (entries (txn c)). idp d' = 0 \<or> umem c (idp d') \<noteq> None) \<longrightarrow>
            fst (bus1_transaction_commit x c) = 0)"
proof -
  let ?i = "bus1_transaction_instantiate_for_id x oc a s"
  let ?es = "entries (txn c)"
  let ?t0 = "fst (snd (commit_prepare x c))" and ?s2 = "snd (snd (commit_prepare x c))"
  have ne: "?es \<noteq> []" using assms(4) by auto
  have u: "bus1_transaction_commit x c = commit_consume_pass x ?es ?t0 0 ?s2"
    using ne by (rule commit_unfold)
  have p1: "if flags (param (txn s)) AND BUS1_SEND_FLAG_CONTINUE x \<noteq> 0
          then fst ?i = 0 \<and> entries (txn (snd ?i)) = (m, o_dest oc) # entries (txn s) \<and>
               \<not> slice (msgs (snd ?i) m) \<and> qnode (msgs (snd ?i) m) = None
          else fst ?i = o_allocate oc \<and> entries (txn (snd ?i)) = entries (txn s)"
    using assms(1-3) instantiate_dropped [OF assms(1-3), of x a s]
    by (simp add: bus1_transaction_instantiate_for_id_def split_def Let_def
        bus1_handle_dest_destroy_def)
  have p2: "qnode (msgs (snd (bus1_transaction_commit x c)) m) = None"
    unfolding u using assms(4,5)
    by (intro consume_pass_sliceless_unlinked) (force, simp add: prepare_slice)
  have p3: "n_dropped (peers (snd (bus1_transaction_commit x c)) p) =
                n_dropped (peers c p) +
                of_nat (length (filter (\<lambda>(m', d'). \<not> slice (msgs c m') \<and> raw_peer d' = p) ?es))"
    for p
    unfolding u by (simp add: consume_pass_n_dropped [OF assms(6)] prepare_slice)
  have p4: "fst (bus1_transaction_commit x c) = 0" 
    if "\<forall>(m', d') \<in> set ?es. idp d' = 0 \<or> umem c (idp d') \<noteq> None"
    unfolding u using that assms(6)
    by (intro consume_pass_no_fault) auto
  show ?thesis
    using p1 p2 p3 p4 commit_result_cases by blast
qed

text \<open>The send with the flag set and the allocation failing for peer 2, whose id pointer
  (address 100) is mapped: the instantiation returns 0, and the commit that follows
  returns 0, leaves message 10 on no queue and raises the counter of peer 2 from 0
  to 1.\<close>

theorem continue_drop_is_silent_witness:
  "0 \<le> o_dest_import oc_quota_mapped \<and> o_message_new oc_quota_mapped = Inr 10 \<and>
   o_allocate oc_quota_mapped < 0 \<and>
   (10, dA) \<in> set (entries (txn (snd (bus1_transaction_instantiate_for_id x0 oc_quota_mapped 100 s0c)))) \<and>
   \<not> slice (msgs (snd (bus1_transaction_instantiate_for_id x0 oc_quota_mapped 100 s0c)) 10) \<and>
   distinct (map fst (entries (txn (snd (bus1_transaction_instantiate_for_id x0 oc_quota_mapped 100 s0c))))) \<and>
   fst (bus1_transaction_instantiate_for_id x0 oc_quota_mapped 100 s0c) = 0 \<and>
   qnode (msgs (snd (bus1_transaction_commit x0
      (snd (bus1_transaction_instantiate_for_id x0 oc_quota_mapped 100 s0c)))) 10) = None \<and>
   n_dropped (peers (snd (bus1_transaction_commit x0
      (snd (bus1_transaction_instantiate_for_id x0 oc_quota_mapped 100 s0c)))) 2) = 1 \<and>
   fst (bus1_transaction_commit x0
      (snd (bus1_transaction_instantiate_for_id x0 oc_quota_mapped 100 s0c))) = 0"
proof -
  let ?c = "snd (bus1_transaction_instantiate_for_id x0 oc_quota_mapped 100 s0c)"
  have h: "0 \<le> o_dest_import oc_quota_mapped" "o_message_new oc_quota_mapped = Inr 10"
    "o_allocate oc_quota_mapped < 0"
    by (simp_all add: oc_quota_mapped_def)
  have i: "entries (txn ?c) = [(10, dA)]" "\<not> slice (msgs ?c 10)"
    "n_dropped (peers ?c 2) = 0" "umem ?c 100 = Some 0"
    "flags (param (txn s0c)) AND BUS1_SEND_FLAG_CONTINUE x0 \<noteq> 0"
    by (simp_all add: inst_eval_defs prim_defs emit_def Let_def split_def
        x0_def s0c_def s0_def p0_def oc_quota_mapped_def dA_def)
  have g: "(10, dA) \<in> set (entries (txn ?c))" "distinct (map fst (entries (txn ?c)))"
    by (simp_all add: i)
  note t = continue_drop_is_silent [OF h g(1) i(2) g(2), of s0c x0 100]
  have a: "fst (bus1_transaction_instantiate_for_id x0 oc_quota_mapped 100 s0c) = 0"
    using t i(5) by simp
  have b: "qnode (msgs (snd (bus1_transaction_commit x0 ?c)) 10) = None"
    using t by simp
  have c: "n_dropped (peers (snd (bus1_transaction_commit x0 ?c)) 2) = 1"
    using t i by (simp add: dA_def)
  have d: "fst (bus1_transaction_commit x0 ?c) = 0"
    using t i by (simp add: dA_def)
  show ?thesis using h g i(2) a b c d by simp
qed

text \<open>Claim C10. For a listed sliceless entry whose id pointer is not null, the log of
  \<^verbatim>\<open>bus1_transaction_commit\<close> holds the store of \<^verbatim>\<open>BUS1_HANDLE_INVALID\<close> to that pointer,
  faulting exactly when the pointer is not mapped; when it faults the commit returns
  \<open>-EFAULT\<close>; and in either case the entry's node ends linked on no queue, so nothing
  was delivered to that destination.\<close>

theorem dropped_entry_writes_invalid_id:
  assumes "(m, d) \<in> set (entries (txn s))" "\<not> slice (msgs s m)" "idp d \<noteq> 0"
  shows "(\<exists>evs. trace (snd (bus1_transaction_commit x s)) = trace s @ evs \<and>
            PutUser (idp d) (BUS1_HANDLE_INVALID x) (umem s (idp d) = None) \<in> set evs) \<and>
         (umem s (idp d) = None \<longrightarrow> fst (bus1_transaction_commit x s) = - EFAULT) \<and>
         qnode (msgs (snd (bus1_transaction_commit x s)) m) = None"
proof -
  let ?es = "entries (txn s)"
  let ?t0 = "fst (snd (commit_prepare x s))" and ?s2 = "snd (snd (commit_prepare x s))"
  have ne: "?es \<noteq> []" using assms(1) by auto
  have u: "bus1_transaction_commit x s = commit_consume_pass x ?es ?t0 0 ?s2"
    using ne by (rule commit_unfold)
  have sl: "\<not> slice (msgs ?s2 m)" using assms(2) by (simp add: prepare_slice)
  obtain pre where pre: "trace ?s2 = trace s @ pre"
    using prepare_log by blast
  obtain post where post: "trace (snd (commit_consume_pass x ?es ?t0 0 ?s2)) = trace ?s2 @ post"
    "PutUser (idp d) (BUS1_HANDLE_INVALID x) (umem ?s2 (idp d) = None) \<in> set post"
    using consume_pass_writes_invalid [OF assms(1) sl assms(3)] by blast
  have a: "\<exists>evs. trace (snd (bus1_transaction_commit x s)) = trace s @ evs \<and>
            PutUser (idp d) (BUS1_HANDLE_INVALID x) (umem s (idp d) = None) \<in> set evs"
    unfolding u
    by (rule exI [of _ "pre @ post"]) (use pre post in simp)
  have b: "fst (bus1_transaction_commit x s) = - EFAULT" if "umem s (idp d) = None"
    unfolding u
    by (rule consume_pass_faults [OF assms(1) sl assms(3)]) (use that in simp)
  have c: "qnode (msgs (snd (bus1_transaction_commit x s)) m) = None"
    unfolding u using assms(1) sl
    by (intro consume_pass_sliceless_unlinked) (force, simp)
  show ?thesis using a b c by blast
qed

text \<open>The send of claim C5's counterexample: the sliceless entry for peer 3 has its id
  pointer at the unmapped address 200.\<close>

theorem dropped_entry_writes_invalid_id_witness:
  "(11, dB) \<in> set (entries (txn (snd (bus1_transaction_instantiate_for_id x0 oc_quota 200 s0c)))) \<and>
   \<not> slice (msgs (snd (bus1_transaction_instantiate_for_id x0 oc_quota 200 s0c)) 11) \<and>
   idp dB \<noteq> 0 \<and>
   umem (snd (bus1_transaction_instantiate_for_id x0 oc_quota 200 s0c)) (idp dB) = None \<and>
   (\<exists>evs. trace (snd (bus1_transaction_commit x0
               (snd (bus1_transaction_instantiate_for_id x0 oc_quota 200 s0c)))) =
            trace (snd (bus1_transaction_instantiate_for_id x0 oc_quota 200 s0c)) @ evs \<and>
          PutUser 200 (- 1) True \<in> set evs) \<and>
   fst (bus1_transaction_commit x0
          (snd (bus1_transaction_instantiate_for_id x0 oc_quota 200 s0c))) = - EFAULT \<and>
   qnode (msgs (snd (bus1_transaction_commit x0
          (snd (bus1_transaction_instantiate_for_id x0 oc_quota 200 s0c)))) 11) = None"
proof -
  let ?c = "snd (bus1_transaction_instantiate_for_id x0 oc_quota 200 s0c)"
  have i: "entries (txn ?c) = [(11, dB)]" "\<not> slice (msgs ?c 11)" "umem ?c 200 = None"
    by (simp_all add: inst_eval_defs prim_defs emit_def Let_def split_def
        x0_def s0c_def s0_def p0_def oc_quota_def dB_def)
  have g: "(11, dB) \<in> set (entries (txn ?c))" "idp dB \<noteq> 0" "idp dB = 200"
    "BUS1_HANDLE_INVALID x0 = - 1"
    by (simp add: i, simp_all add: dB_def x0_def)
  show ?thesis
    using dropped_entry_writes_invalid_id [OF g(1) i(2) g(2), of x0] g i
    by simp
qed

section \<open>Lemmas on a raced commit and on the order of the write-back\<close>

subsection \<open>A queue reset before the commit pass\<close>

lemma reset_frame [simp]:
  "txn (bus1_queue_reset p s) = txn s"
  "umem (bus1_queue_reset p s) = umem s"
  "peers (bus1_queue_reset p s) = peers s"
  "trace (bus1_queue_reset p s) = trace s"
  by (simp_all add: bus1_queue_reset_def)

lemma reset_slice [simp]:
  "slice (msgs (bus1_queue_reset p s) m) = slice (msgs s m)"
  by (simp add: bus1_queue_reset_def split: option.splits)

lemma reset_qnode:
  "qnode (msgs (bus1_queue_reset p s) m) =
     (case qnode (msgs s m) of None \<Rightarrow> None
      | Some (q, t) \<Rightarrow> if q = p then None else Some (q, t))"
  by (simp add: bus1_queue_reset_def split: option.splits)

lemma consume_unqueued_log:
  assumes "slice (msgs s m)" "qnode (msgs s m) = None"
  shows "\<exists>evs. trace (snd (bus1_transaction_consume x m d ts s)) = trace s @ evs \<and>
     MessageDeallocate m (raw_peer d) \<in> set evs \<and> MessageFree (Some m) (raw_peer d) \<in> set evs"
proof -
  obtain evs where e: "trace (snd (consume_enter x m d ts s)) = trace s @ Consume m d ts # evs"
    using enter_trace by blast
  let ?s4 = "snd (consume_enter x m d ts s)" and ?ts = "fst (consume_enter x m d ts s)"
  let ?wb = "consume_writeback x m d ?ts ?s4"
  obtain w where w: "trace (snd (consume_link x m (raw_peer d) (fst (fst ?wb)) ?ts (snd ?wb))) =
     trace (snd ?wb) @
     (if fst (fst ?wb) \<noteq> BUS1_HANDLE_INVALID x then
        [QueueStage (raw_peer d) m ?ts w] @ (if w then [PeerWake (raw_peer d)] else [])
      else [QueueRemove (raw_peer d) m w, MessageDeallocate m (raw_peer d)])"
    using link_trace by blast
  show ?thesis
    using assms e w
    by (simp add: bus1_transaction_consume_def Let_def split_def writeback_trace writeback_ident
        link_fst consume_tail_defs)
qed

lemma consume_pass_unqueued:
  assumes "(m, d) \<in> set es" "distinct (map fst es)" "slice (msgs s m)" "qnode (msgs s m) = None"
  shows "qnode (msgs (snd (commit_consume_pass x es ts res s)) m) = None \<and>
         \<not> slice (msgs (snd (commit_consume_pass x es ts res s)) m) \<and>
         (\<exists>evs. trace (snd (commit_consume_pass x es ts res s)) = trace s @ evs \<and>
            MessageDeallocate m (raw_peer d) \<in> set evs \<and>
            MessageFree (Some m) (raw_peer d) \<in> set evs)"
  using assms
proof (induction es arbitrary: res s)
  case Nil
  then show ?case by simp
next
  case (Cons e es)
  obtain m1 d1 where e: "e = (m1, d1)" by (cases e)
  let ?c = "bus1_transaction_consume x m1 d1 ts s"
  let ?r = "if fst ?c = - EFAULT then - EFAULT else res"
  have d: "distinct (map fst es)" "m1 \<notin> fst ` set es"
    using Cons.prems(2) by (auto simp add: e)
  show ?case
  proof (cases "(m, d) \<in> set es")
    case True
    then have ne: "m \<noteq> m1" using d(2) by force
    obtain evs1 where e1: "trace (snd ?c) = trace s @ evs1"
      using consume_extends by blast
    from Cons.IH [OF True d(1), of "snd ?c" ?r] Cons.prems(3,4) ne
    obtain evs2 where e2:
      "qnode (msgs (snd (commit_consume_pass x es ts ?r (snd ?c))) m) = None"
      "\<not> slice (msgs (snd (commit_consume_pass x es ts ?r (snd ?c))) m)"
      "trace (snd (commit_consume_pass x es ts ?r (snd ?c))) = trace (snd ?c) @ evs2"
      "MessageDeallocate m (raw_peer d) \<in> set evs2" "MessageFree (Some m) (raw_peer d) \<in> set evs2"
      by (auto simp add: consume_msgs_other)
    show ?thesis
      unfolding e consume_pass_Cons using e2(1,2)
      by (intro conjI exI [of _ "evs1 @ evs2"]) (use e1 e2 in simp_all)
  next
    case False
    with Cons.prems(1) have eq: "m1 = m" "d1 = d" by (simp_all add: e)
    obtain evs1 where e1: "trace (snd ?c) = trace s @ evs1"
      "MessageDeallocate m (raw_peer d) \<in> set evs1" "MessageFree (Some m) (raw_peer d) \<in> set evs1"
      using consume_unqueued_log [OF Cons.prems(3,4), of x d ts] eq by auto
    obtain evs2 where e2: "trace (snd (commit_consume_pass x es ts ?r (snd ?c))) =
        trace (snd ?c) @ evs2"
      using consume_pass_extends by blast
    have u: "qnode (msgs (snd ?c) m) = None" "\<not> slice (msgs (snd ?c) m)"
      using consume_unlinked [of s m x d ts] Cons.prems(4) eq by simp_all
    have o: "msgs (snd (commit_consume_pass x es ts ?r (snd ?c))) m = msgs (snd ?c) m"
      using d(2) eq by (intro consume_pass_msgs_other) simp
    show ?thesis
      unfolding e consume_pass_Cons using u o
      by (intro conjI exI [of _ "evs1 @ evs2"]) (use e1 e2 in simp_all)
  qed
qed

lemma consume_pass_linked_nz:
  assumes "ts \<noteq> 0" "(m, d) \<in> set es" "distinct (map fst es)" "slice (msgs s m)"
    "qnode (msgs s m) \<noteq> None" "\<forall>s'. dest_export x s' d (raw_peer d) ts \<noteq> BUS1_HANDLE_INVALID x"
  shows "qnode (msgs (snd (commit_consume_pass x es ts res s)) m) = Some (raw_peer d, ts)"
  using assms(2-5)
proof (induction es arbitrary: res s)
  case Nil
  then show ?case by simp
next
  case (Cons e es)
  obtain m1 d1 where e: "e = (m1, d1)" by (cases e)
  let ?c = "bus1_transaction_consume x m1 d1 ts s"
  let ?r = "if fst ?c = - EFAULT then - EFAULT else res"
  have d: "distinct (map fst es)" "m1 \<notin> fst ` set es"
    using Cons.prems(2) by (auto simp add: e)
  show ?case
  proof (cases "(m, d) \<in> set es")
    case True
    then have ne: "m \<noteq> m1" using d(2) by force
    show ?thesis
      unfolding e consume_pass_Cons
      using Cons.IH [OF True d(1), of "snd ?c" ?r] Cons.prems(3,4) ne
      by (simp add: consume_msgs_other)
  next
    case False
    with Cons.prems(1) have eq: "m1 = m" "d1 = d" by (simp_all add: e)
    have "qnode (msgs (snd ?c) m) = Some (raw_peer d, ts)"
      unfolding eq using assms(1) Cons.prems(3,4) assms(6) by (rule consume_linked_nz)
    moreover have "msgs (snd (commit_consume_pass x es ts ?r (snd ?c))) m = msgs (snd ?c) m"
      using d(2) eq by (intro consume_pass_msgs_other) simp
    ultimately show ?thesis
      unfolding e consume_pass_Cons by simp
  qed
qed

subsection \<open>The order of store and stage in bus1\_transaction\_consume\<close>

lemma enter_no_stage:
  "\<exists>evs. trace (snd (consume_enter x m d ts s)) = trace s @ evs \<and> staged_nodes evs = [] \<and>
     \<not> list_ex is_put_user evs"
  by (simp add: consume_enter_def Let_def split_def mutex_lock_def
      bus1_handle_inflight_install_def tick_sender_trace sync_dest_trace)

lemma consume_store_before_stage:
  "\<exists>before after. trace (snd (bus1_transaction_consume x m d ts s)) = trace s @ before @ after \<and>
     staged_nodes before = [] \<and> \<not> list_ex is_put_user after"
proof -
  obtain evs where e: "trace (snd (consume_enter x m d ts s)) = trace s @ evs"
    "staged_nodes evs = []"
    using enter_no_stage by blast
  let ?s4 = "snd (consume_enter x m d ts s)" and ?ts = "fst (consume_enter x m d ts s)"
  let ?wb = "consume_writeback x m d ?ts ?s4"
  obtain wev where wev: "trace (snd ?wb) = trace ?s4 @ wev" "staged_nodes wev = []"
    by (simp add: writeback_trace)
  let ?l = "consume_link x m (raw_peer d) (fst (fst ?wb)) ?ts (snd ?wb)"
  obtain w where w: "trace (snd ?l) = trace (snd ?wb) @
     (if fst (fst ?wb) \<noteq> BUS1_HANDLE_INVALID x then
        [QueueStage (raw_peer d) m ?ts w] @ (if w then [PeerWake (raw_peer d)] else [])
      else [QueueRemove (raw_peer d) m w, MessageDeallocate m (raw_peer d)])"
    using link_trace by blast
  show ?thesis
    apply (rule exI [of _ "evs @ wev"])
    apply (rule exI [of _ "(if fst (fst ?wb) \<noteq> BUS1_HANDLE_INVALID x then
        [QueueStage (raw_peer d) m ?ts w] @ (if w then [PeerWake (raw_peer d)] else [])
      else [QueueRemove (raw_peer d) m w, MessageDeallocate m (raw_peer d)]) @
      [MutexUnlock (raw_peer d),
       MessageFree (snd (fst ?l)) (raw_peer d), DestDestroy d]"])
    using e wev w
    by (simp add: bus1_transaction_consume_def Let_def split_def consume_tail_defs)
qed

section \<open>Claims on races, the write-back and the unicast path\<close>

lemma commit_raced_unfold:
  "entries (txn s) \<noteq> [] \<Longrightarrow>
     bus1_transaction_commit_raced x env s =
       commit_consume_pass x (entries (txn s)) (fst (snd (commit_prepare x s))) 0
         (env (snd (snd (commit_prepare x s))))"
  by (simp add: bus1_transaction_commit_raced_def split_def Let_def commit_prepare_def)

text \<open>Claim C7. Let the queue of peer \<open>p\<close> be reset after the sync pass and before the
  commit pass of a commit of distinct messages, and let a listed entry for \<open>p\<close> have a
  slice. At the end of the commit its node is linked on no queue and its slice is
  released; the commit pass has deallocated and freed the message. The commit returns
  0 or \<open>-EFAULT\<close>, never \<open>-EHOSTUNREACH\<close>, and it returns 0 when the id pointer of
  every entry that could still store an id (an entry for another peer, or a sliceless
  one) is null or mapped. Unless \<open>t0\<close> is \<open>0\<close>, every entry for another peer that has a
  slice and a handle that exports ends staged on its destination at \<open>t0\<close>.\<close>

theorem commit_survives_queue_reset:
  assumes "(m, d) \<in> set (entries (txn s))" "raw_peer d = p" "slice (msgs s m)"
    "distinct (map fst (entries (txn s)))"
  shows "let r = bus1_transaction_commit_raced x (bus1_queue_reset p) s;
             t0 = fst (snd (commit_prepare x s));
             after_sync = snd (snd (commit_prepare x s))
         in qnode (msgs (snd r) m) = None \<and> \<not> slice (msgs (snd r) m) \<and>
            (\<exists>evs. trace (snd r) = trace after_sync @ evs \<and>
                   MessageDeallocate m p \<in> set evs \<and> MessageFree (Some m) p \<in> set evs) \<and>
            (fst r = 0 \<or> fst r = - EFAULT) \<and>
            ((\<forall>(m', d') \<in> set (entries (txn s)).
                 raw_peer d' \<noteq> p \<or> \<not> slice (msgs s m') \<longrightarrow>
                 idp d' = 0 \<or> umem s (idp d') \<noteq> None) \<longrightarrow> fst r = 0) \<and>
            (t0 \<noteq> 0 \<longrightarrow>
               (\<forall>(m', d') \<in> set (entries (txn s)).
                  raw_peer d' \<noteq> p \<and> slice (msgs s m') \<and>
                  (\<forall>s'. dest_export x s' d' (raw_peer d') t0 \<noteq> BUS1_HANDLE_INVALID x) \<longrightarrow>
                  qnode (msgs (snd r) m') = Some (raw_peer d', t0)))"
proof -
  let ?es = "entries (txn s)"
  let ?t0 = "fst (snd (commit_prepare x s))" and ?s2 = "snd (snd (commit_prepare x s))"
  let ?s3 = "bus1_queue_reset p ?s2"
  let ?r = "commit_consume_pass x ?es ?t0 0 ?s3"
  have ne: "?es \<noteq> []" using assms(1) by auto
  have u: "bus1_transaction_commit_raced x (bus1_queue_reset p) s = ?r"
    using ne by (rule commit_raced_unfold)
  have q: "qnode (msgs ?s3 m') = (if raw_peer d' = p then None else qnode (msgs ?s2 m')) \<and>
           (raw_peer d' \<noteq> p \<longrightarrow> qnode (msgs ?s3 m') \<noteq> None)"
    if in_es: "(m', d') \<in> set ?es" for m' d'
  proof -
    obtain t' where "qnode (msgs ?s2 m') = Some (raw_peer d', t')"
      using prepare_queued [OF assms(4) in_es] by blast
    then show ?thesis by (simp add: reset_qnode)
  qed
  have sl: "slice (msgs ?s3 m') = slice (msgs s m')" for m'
    by (simp add: prepare_slice)
  have a: "qnode (msgs (snd ?r) m) = None \<and> \<not> slice (msgs (snd ?r) m) \<and>
         (\<exists>evs. trace (snd ?r) = trace ?s3 @ evs \<and>
            MessageDeallocate m (raw_peer d) \<in> set evs \<and>
            MessageFree (Some m) (raw_peer d) \<in> set evs)"
    using q [OF assms(1)] assms(2,3)
    by (intro consume_pass_unqueued [OF assms(1) assms(4)]) (simp_all add: prepare_slice)
  have b: "fst ?r = 0 \<or> fst ?r = - EFAULT"
    by (rule consume_pass_result_cases)
  have c: "fst ?r = 0"
    if h: "\<forall>(m', d') \<in> set ?es. raw_peer d' \<noteq> p \<or> \<not> slice (msgs s m') \<longrightarrow>
                 idp d' = 0 \<or> umem s (idp d') \<noteq> None"
  proof (rule consume_pass_no_fault [OF assms(4)])
    show "\<forall>(m', d') \<in> set ?es. idp d' = 0 \<or> umem ?s3 (idp d') \<noteq> None \<or>
            (slice (msgs ?s3 m') \<and> qnode (msgs ?s3 m') = None)"
      using h q by (auto simp add: prepare_slice)
  qed
  have e: "qnode (msgs (snd ?r) m') = Some (raw_peer d', ?t0)"
    if "?t0 \<noteq> 0" "(m', d') \<in> set ?es" "raw_peer d' \<noteq> p" "slice (msgs s m')"
       "\<forall>s'. dest_export x s' d' (raw_peer d') ?t0 \<noteq> BUS1_HANDLE_INVALID x" for m' d'
  proof -
    have "qnode (msgs ?s3 m') \<noteq> None" using q [OF that(2)] that(3) by blast
    moreover have "slice (msgs ?s3 m')" using that(4) by (simp add: prepare_slice)
    ultimately show ?thesis
      using consume_pass_linked_nz [OF that(1,2) assms(4) _ _ that(5)] by blast
  qed
  show ?thesis
    unfolding Let_def u using a b c e assms(2) by (simp add: case_prod_unfold)
qed

text \<open>The two-entry send with the queue of peer 3 reset before the commit pass: message 11
  ends on no queue, the commit returns 0 although the id pointer of that entry is not
  mapped, and message 10 is staged on peer 2 at 14.\<close>

theorem commit_survives_queue_reset_witness:
  "(11, dB) \<in> set (entries (txn s2)) \<and> raw_peer dB = 3 \<and> slice (msgs s2 11) \<and>
   distinct (map fst (entries (txn s2))) \<and>
   fst (snd (commit_prepare x0 s2)) = 14 \<and>
   qnode (msgs (snd (bus1_transaction_commit_raced x0 (bus1_queue_reset 3) s2)) 11) = None \<and>
   \<not> slice (msgs (snd (bus1_transaction_commit_raced x0 (bus1_queue_reset 3) s2)) 11) \<and>
   fst (bus1_transaction_commit_raced x0 (bus1_queue_reset 3) s2) = 0 \<and>
   qnode (msgs (snd (bus1_transaction_commit_raced x0 (bus1_queue_reset 3) s2)) 10) = Some (2, 14)"
proof -
  have h: "(11, dB) \<in> set (entries (txn s2))" "raw_peer dB = 3" "slice (msgs s2 11)"
    "distinct (map fst (entries (txn s2)))"
    by (simp_all add: example_defs)
  have f: "slice (msgs s2 10)" "umem s2 100 = Some 0" "idp dA = 100" "raw_peer dA = 2"
    "BUS1_HANDLE_INVALID x0 = - 1" "dest_export x0 = (\<lambda>s d p ts. hnd d)" "hnd dA = 7"
    by (simp_all add: example_defs)
  show ?thesis
    using commit_survives_queue_reset [OF h, of x0] h
    by (simp add: Let_def s2_prepare_ts s2_entries f)
qed

text \<open>Claim C6, at an input where the code departs from it. Every helper of the
  instantiation succeeds, for message 10 and peer 2 with the id pointer at the mapped
  address 100. \<^verbatim>\<open>bus1_transaction_commit_for_id\<close> hands the new message, whose node was
  never staged, to \<^verbatim>\<open>bus1_transaction_consume\<close>, which finds the node not queued: the call
  returns \<open>-EHOSTUNREACH\<close>, links the message on no queue and stores no id.
  \<^verbatim>\<open>bus1_transaction_instantiate_for_id\<close> followed by \<^verbatim>\<open>bus1_transaction_commit\<close> returns 0
  twice, stages the message on peer 2 at 4 and stores the id 7 at address 100.\<close>

theorem unicast_fast_path_differs:
  "fst (bus1_transaction_commit_for_id x0 oc_ok 100 s0) = - EHOSTUNREACH \<and>
   qnode (msgs (snd (bus1_transaction_commit_for_id x0 oc_ok 100 s0)) 10) = None \<and>
   umem (snd (bus1_transaction_commit_for_id x0 oc_ok 100 s0)) 100 = Some 0 \<and>
   fst (bus1_transaction_instantiate_for_id x0 oc_ok 100 s0) = 0 \<and>
   fst (bus1_transaction_commit x0
          (snd (bus1_transaction_instantiate_for_id x0 oc_ok 100 s0))) = 0 \<and>
   qnode (msgs (snd (bus1_transaction_commit x0
          (snd (bus1_transaction_instantiate_for_id x0 oc_ok 100 s0)))) 10) = Some (2, 4) \<and>
   umem (snd (bus1_transaction_commit x0
          (snd (bus1_transaction_instantiate_for_id x0 oc_ok 100 s0)))) 100 = Some 7"
  by (simp add: bus1_transaction_commit_for_id_def inst_eval_defs eval_defs
      x0_def s0_def p0_def oc_ok_def dA_def bus1_handle_dest_init_def EHOSTUNREACH_def)

text \<open>Whenever the import, the message, the slice, the payload copy and the handle
  instantiation all succeed, the unicast path returns \<open>-EHOSTUNREACH\<close>.\<close>

lemma instantiate_ok:
  assumes "0 \<le> o_dest_import oc" "o_message_new oc = Inr m" "0 \<le> o_allocate oc"
    "0 \<le> o_write_iovec oc" "0 \<le> o_inflight_instantiate oc"
  shows "fst (bus1_transaction_instantiate x oc a s) = Inr m \<and>
         slice (msgs (snd (snd (bus1_transaction_instantiate x oc a s))) m) \<and>
         qnode (msgs (snd (snd (bus1_transaction_instantiate x oc a s))) m) = None"
  using assms
  by (simp add: bus1_transaction_instantiate_def instantiate_fill_def inst_prim_defs prim_defs
      Let_def split_def)

lemma unicast_fast_path_unreachable:
  assumes "0 \<le> o_dest_import oc" "o_message_new oc = Inr m" "0 \<le> o_allocate oc"
    "0 \<le> o_write_iovec oc" "0 \<le> o_inflight_instantiate oc"
  shows "fst (bus1_transaction_commit_for_id x oc a s) = - EHOSTUNREACH"
  using instantiate_ok [OF assms, of x a s]
  by (simp add: bus1_transaction_commit_for_id_def split_def Let_def consume_result)

lemma consume_pass_head:
  "es \<noteq> [] \<Longrightarrow>
     \<exists>evs. trace (snd (commit_consume_pass x es ts res s)) = trace s @ evs \<and> is_consume (hd evs)"
proof (cases es)
  case Nil
  then show "es \<noteq> [] \<Longrightarrow> ?thesis" by simp
next
  case (Cons e es')
  obtain m d where e: "e = (m, d)" by (cases e)
  let ?c = "bus1_transaction_consume x m d ts s"
  obtain evs1 where c: "trace (snd ?c) = trace s @ Consume m d ts # evs1"
    using consume_log by blast
  obtain evs2 where p: "trace (snd (commit_consume_pass x es' ts
      (if fst ?c = - EFAULT then - EFAULT else res) (snd ?c))) = trace (snd ?c) @ evs2"
    using consume_pass_extends by blast
  show ?thesis
    unfolding Cons e consume_pass_Cons
    by (rule exI [of _ "Consume m d ts # evs1 @ evs2"]) (use c p in simp)
qed

text \<open>Claim C8 as stated fails at this input: the stores to user memory and the stages
  of the commit of the two-entry send with both id pointers mapped, in the order of the
  log. The final timestamp is 14. The staging pass stages message 11
  at 11 and message 10 at 13. The id of message 11 is stored at address 101 while its
  node stands at 11, and the id of message 10 at address 100 while its node stands at
  13; each node is staged at 14 only after the store.\<close>

theorem writeback_precedes_final_stage:
  "fst (snd (commit_prepare x0 s3)) = 14 \<and>
   filter is_store_or_stage (trace (snd (bus1_transaction_commit x0 s3))) =
     [QueueStage 3 11 11 False, QueueStage 2 10 13 False,
      PutUser 101 8 False, QueueStage 3 11 14 False,
      PutUser 100 7 False, QueueStage 2 10 14 False]"
  by (simp add: eval_defs x0_def s0_def s3_def p0_def dA_def dC_def is_store_or_stage_def)

section \<open>The claim on the commit timestamp\<close>

text \<open>Claim C1. For a transaction with a non-empty entries list, let \<open>t0\<close> be the value of
  \<^verbatim>\<open>timestamp\<close> after the staging pass. After the side-channel sync pass the clock of
  every entry's destination is at least \<open>t0\<close>. The commit pass calls
  \<^verbatim>\<open>bus1_transaction_consume\<close> once per entry, in list order, each time with the
  timestamp \<open>t0\<close>. Unless \<open>t0\<close> is \<open>0\<close> (the value by which
  \<^verbatim>\<open>bus1_transaction_consume\<close> recognises the unicast path), every stage and every export
  of the commit pass carries \<open>t0\<close>, and the commit pass neither ticks nor syncs a clock,
  so the clocks stay where the sync pass left them; and when the messages of the list
  are distinct, every entry that has a slice and a handle that exports ends staged on
  the queue of its destination at \<open>t0\<close>.\<close>

theorem commit_identical_timestamp:
  assumes "entries (txn s) \<noteq> []"
  shows "let t0 = fst (snd (commit_prepare x s));
             after_sync = snd (snd (commit_prepare x s))
         in (\<forall>(m, d) \<in> set (entries (txn s)). t0 \<le> clocks after_sync (raw_peer d)) \<and>
            (\<exists>evs. trace (snd (bus1_transaction_commit x s)) = trace after_sync @ evs \<and>
                   filter is_consume evs = map (\<lambda>(m, d). Consume m d t0) (entries (txn s)) \<and>
                   (t0 \<noteq> 0 \<longrightarrow>
                      list_all (stamped t0) evs \<and> \<not> list_ex is_clock_op evs \<and>
                      clocks (snd (bus1_transaction_commit x s)) = clocks after_sync)) \<and>
            (t0 \<noteq> 0 \<and> distinct (map fst (entries (txn s))) \<longrightarrow>
               (\<forall>(m, d) \<in> set (entries (txn s)).
                  slice (msgs s m) \<and>
                  (\<forall>s'. dest_export x s' d (raw_peer d) t0 \<noteq> BUS1_HANDLE_INVALID x) \<longrightarrow>
                  qnode (msgs (snd (bus1_transaction_commit x s)) m) = Some (raw_peer d, t0)))"
proof -
  let ?t0 = "fst (snd (commit_prepare x s))" and ?s2 = "snd (snd (commit_prepare x s))"
  let ?es = "entries (txn s)"
  have u: "bus1_transaction_commit x s = commit_consume_pass x ?es ?t0 0 ?s2"
    using assms by (rule commit_unfold)
  have a: "\<forall>(m, d) \<in> set ?es. ?t0 \<le> clocks ?s2 (raw_peer d)"
    using prepare_clock_bound by blast
  obtain evs where e: "trace (snd (commit_consume_pass x ?es ?t0 0 ?s2)) = trace ?s2 @ evs"
    "filter is_consume evs = map (\<lambda>(m, d). Consume m d ?t0) ?es"
    using consume_pass_log by blast
  have b: "list_all (stamped ?t0) evs \<and> \<not> list_ex is_clock_op evs \<and>
      clocks (snd (commit_consume_pass x ?es ?t0 0 ?s2)) = clocks ?s2" if nz: "?t0 \<noteq> 0"
  proof -
    obtain evs' where e': "trace (snd (commit_consume_pass x ?es ?t0 0 ?s2)) = trace ?s2 @ evs'"
      "list_all (stamped ?t0) evs'" "\<not> list_ex is_clock_op evs'"
      using consume_pass_stamped_nz [OF nz] by blast
    from e(1) e'(1) have "evs' = evs" by simp
    with e' consume_pass_clocks_nz [OF nz] show ?thesis by simp
  qed
  have c: "qnode (msgs (snd (commit_consume_pass x ?es ?t0 0 ?s2)) m) = Some (raw_peer d, ?t0)"
    if nz: "?t0 \<noteq> 0" and dist: "distinct (map fst ?es)" and in_es: "(m, d) \<in> set ?es"
      and sl: "slice (msgs s m)"
      and ex: "\<forall>s'. dest_export x s' d (raw_peer d) ?t0 \<noteq> BUS1_HANDLE_INVALID x" for m d
  proof -
    have "qnode (msgs ?s2 m) \<noteq> None" using prepare_queued [OF dist in_es, of x] by auto
    moreover have "slice (msgs ?s2 m)" using sl by (simp add: prepare_slice)
    ultimately show ?thesis
      using consume_pass_linked_nz [OF nz in_es dist _ _ ex] by blast
  qed
  have c': "?t0 \<noteq> 0 \<and> distinct (map fst ?es) \<longrightarrow>
               (\<forall>(m, d) \<in> set ?es.
                  slice (msgs s m) \<and>
                  (\<forall>s'. dest_export x s' d (raw_peer d) ?t0 \<noteq> BUS1_HANDLE_INVALID x) \<longrightarrow>
                  qnode (msgs (snd (commit_consume_pass x ?es ?t0 0 ?s2)) m) =
                    Some (raw_peer d, ?t0))"
    using c by blast
  have ab: "(\<forall>(m, d) \<in> set ?es. ?t0 \<le> clocks ?s2 (raw_peer d)) \<and>
            (\<exists>evs. trace (snd (commit_consume_pass x ?es ?t0 0 ?s2)) = trace ?s2 @ evs \<and>
                   filter is_consume evs = map (\<lambda>(m, d). Consume m d ?t0) ?es \<and>
                   (?t0 \<noteq> 0 \<longrightarrow>
                      list_all (stamped ?t0) evs \<and> \<not> list_ex is_clock_op evs \<and>
                      clocks (snd (commit_consume_pass x ?es ?t0 0 ?s2)) = clocks ?s2))"
    using a e b by blast
  show ?thesis
    unfolding Let_def u
    by (rule conjI [OF conjunct1 [OF ab] conjI [OF conjunct2 [OF ab] c']])
qed

text \<open>The two-entry send: \<open>t0\<close> is 14, both destination clocks reach it after the sync
  pass, both calls of the commit pass receive it, and both messages end staged at 14.\<close>

theorem commit_identical_timestamp_witness:
  "entries (txn s2) \<noteq> [] \<and>
   fst (snd (commit_prepare x0 s2)) = 14 \<and>
   14 \<le> clocks (snd (snd (commit_prepare x0 s2))) (raw_peer dB) \<and>
   14 \<le> clocks (snd (snd (commit_prepare x0 s2))) (raw_peer dA) \<and>
   (\<exists>evs. trace (snd (bus1_transaction_commit x0 s2)) =
            trace (snd (snd (commit_prepare x0 s2))) @ evs \<and>
          filter is_consume evs = [Consume 11 dB 14, Consume 10 dA 14] \<and>
          list_all (stamped 14) evs \<and> \<not> list_ex is_clock_op evs \<and>
          clocks (snd (bus1_transaction_commit x0 s2)) = clocks (snd (snd (commit_prepare x0 s2)))) \<and>
   qnode (msgs (snd (bus1_transaction_commit x0 s2)) 11) = Some (3, 14) \<and>
   qnode (msgs (snd (bus1_transaction_commit x0 s2)) 10) = Some (2, 14)"
proof -
  have h: "entries (txn s2) \<noteq> []" by (simp add: s2_entries)
  have f: "slice (msgs s2 10)" "slice (msgs s2 11)" "raw_peer dA = 2" "raw_peer dB = 3"
    "BUS1_HANDLE_INVALID x0 = - 1" "dest_export x0 = (\<lambda>s d p ts. hnd d)" "hnd dA = 7"
    "hnd dB = 8"
    by (simp_all add: example_defs)
  show ?thesis
    using commit_identical_timestamp [OF h, of x0] h
    by (simp add: Let_def s2_prepare_ts s2_entries f)
qed

section \<open>Lemmas on the commit pass against the specification\<close>

lemma view_of_simps [simp]:
  "v_slice (view_of s) = (\<lambda>m. slice (msgs s m))"
  "v_node (view_of s) = (\<lambda>m. qnode (msgs s m))"
  "v_dest (view_of s) = (\<lambda>m. destination (msgs s m))"
  "v_umem (view_of s) = umem s"
  "v_dropped (view_of s) = (\<lambda>p. n_dropped (peers s p))"
  by (simp_all add: view_of_def)

lemma view_of_trace [simp]: "view_of (s\<lparr>trace := t\<rparr>) = view_of s"
  by (simp add: view_of_def)

lemma view_of_emit [simp]: "view_of (emit e s) = view_of s"
  by (simp add: view_of_def)

lemmas spec_entry_defs = spec_commit_entry_def spec_write_back_def spec_discard_def

lemma consume_spec_sliceless:
  assumes "ts \<noteq> 0" "\<not> slice (msgs s m)"
  shows "\<exists>ident w evs f.
     spec_commit_entry (BUS1_HANDLE_INVALID x) (m, d) ts (ident, w) (view_of s) =
       (evs, f, view_of (snd (bus1_transaction_consume x m d ts s))) \<and>
     trace (snd (bus1_transaction_consume x m d ts s)) = trace s @ evs \<and>
     (fst (bus1_transaction_consume x m d ts s) = - EFAULT \<longleftrightarrow> f)"
  using assms
  by (simp add: bus1_transaction_consume_def enter_nz consume_writeback_def consume_link_def
        prim_defs emit_def Let_def split_def spec_entry_defs view_of_def EFAULT_def EHOSTUNREACH_def fun_eq_iff)

lemma consume_spec_slice:
  assumes "ts \<noteq> 0" "slice (msgs s m)"
  shows "\<exists>ident w evs f.
     spec_commit_entry (BUS1_HANDLE_INVALID x) (m, d) ts (ident, w) (view_of s) =
       (evs, f, view_of (snd (bus1_transaction_consume x m d ts s))) \<and>
     trace (snd (bus1_transaction_consume x m d ts s)) = trace s @ evs \<and>
     (fst (bus1_transaction_consume x m d ts s) = - EFAULT \<longleftrightarrow> f)"
  using assms
  by (simp add: bus1_transaction_consume_def enter_nz consume_writeback_def consume_link_def
        prim_defs emit_def Let_def split_def spec_entry_defs view_of_def EFAULT_def EHOSTUNREACH_def fun_eq_iff)
     blast

lemma consume_spec:
  assumes "ts \<noteq> 0"
  shows "\<exists>ident w evs f.
     spec_commit_entry (BUS1_HANDLE_INVALID x) (m, d) ts (ident, w) (view_of s) =
       (evs, f, view_of (snd (bus1_transaction_consume x m d ts s))) \<and>
     trace (snd (bus1_transaction_consume x m d ts s)) = trace s @ evs \<and>
     (fst (bus1_transaction_consume x m d ts s) = - EFAULT \<longleftrightarrow> f)"
  using consume_spec_sliceless [OF assms] consume_spec_slice [OF assms] by blast

lemma consume_pass_spec:
  assumes "ts \<noteq> 0"
  shows "\<exists>answers evs f. length answers = length es \<and>
     spec_commit_pass (BUS1_HANDLE_INVALID x) (zip es answers) ts (view_of s) =
       (evs, f, view_of (snd (commit_consume_pass x es ts res s))) \<and>
     trace (snd (commit_consume_pass x es ts res s)) = trace s @ evs \<and>
     fst (commit_consume_pass x es ts res s) = (if f then - EFAULT else res)"
proof (induction es arbitrary: res s)
  case Nil
  show ?case by (rule exI [of _ "[]"], rule exI [of _ "[]"], rule exI [of _ False]) simp
next
  case (Cons e es)
  obtain m d where e: "e = (m, d)" by (cases e)
  let ?c = "bus1_transaction_consume x m d ts s"
  let ?res = "if fst ?c = - EFAULT then - EFAULT else res"
  obtain ident w evs1 f1 where
    c: "spec_commit_entry (BUS1_HANDLE_INVALID x) (m, d) ts (ident, w) (view_of s) =
          (evs1, f1, view_of (snd ?c))"
       "trace (snd ?c) = trace s @ evs1" "fst ?c = - EFAULT \<longleftrightarrow> f1"
    using consume_spec [OF assms] by blast
  from Cons.IH [of "snd ?c" ?res] obtain answers evs2 f2 where
    p: "length answers = length es"
       "spec_commit_pass (BUS1_HANDLE_INVALID x) (zip es answers) ts (view_of (snd ?c)) =
          (evs2, f2, view_of (snd (commit_consume_pass x es ts ?res (snd ?c))))"
       "trace (snd (commit_consume_pass x es ts ?res (snd ?c))) = trace (snd ?c) @ evs2"
       "fst (commit_consume_pass x es ts ?res (snd ?c)) = (if f2 then - EFAULT else ?res)"
    by blast
  show ?case
    unfolding e consume_pass_Cons
    apply (rule exI [of _ "(ident, w) # answers"], rule exI [of _ "evs1 @ evs2"])
    apply (rule exI [of _ "f1 \<or> f2"])
    using c p by simp
qed

subsection \<open>The state the commit pass starts from\<close>

lemma stage_pass_destination:
  "destination (msgs (snd (commit_stage_pass x es t s)) m) = destination (msgs s m)"
proof (induction es arbitrary: t s)
  case Nil
  then show ?case by simp
next
  case (Cons e es)
  obtain m1 d1 where e: "e = (m1, d1)" by (cases e)
  show ?case
    by (simp add: e split_def Let_def Cons.IH stage_entry_msgs)
qed

lemma stage_pass_stays_queued:
  "qnode (msgs s m) \<noteq> None \<Longrightarrow> qnode (msgs (snd (commit_stage_pass x es t s)) m) \<noteq> None"
proof (induction es arbitrary: t s)
  case Nil
  then show ?case by simp
next
  case (Cons e es)
  obtain m1 d1 where e: "e = (m1, d1)" by (cases e)
  have "qnode (msgs (snd (commit_stage_entry x m1 d1 t s)) m) \<noteq> None"
    using Cons.prems by (simp add: stage_entry_msgs)
  then show ?case
    by (simp add: e split_def Let_def Cons.IH)
qed

lemma stage_pass_queued_any:
  "m \<in> fst ` set es \<Longrightarrow> qnode (msgs (snd (commit_stage_pass x es t s)) m) \<noteq> None"
proof (induction es arbitrary: t s)
  case Nil
  then show ?case by simp
next
  case (Cons e es)
  obtain m1 d1 where e: "e = (m1, d1)" by (cases e)
  show ?case
  proof (cases "m = m1")
    case True
    have "qnode (msgs (snd (commit_stage_entry x m1 d1 t s)) m) \<noteq> None"
      by (simp add: True stage_entry_msgs)
    then show ?thesis
      by (simp add: e split_def Let_def stage_pass_stays_queued)
  next
    case False
    with Cons.prems have "m \<in> fst ` set es" by (auto simp add: e)
    then show ?thesis
      by (simp add: e split_def Let_def Cons.IH)
  qed
qed

lemma begin_msgs [simp]: "msgs (snd (commit_begin x s)) = msgs s"
  by (simp add: commit_begin_def prim_defs Let_def split_def)

lemma prepare_queued_any:
  "(m, d) \<in> set (entries (txn s)) \<Longrightarrow> qnode (msgs (snd (snd (commit_prepare x s))) m) \<noteq> None"
proof -
  assume "(m, d) \<in> set (entries (txn s))"
  then have "m \<in> fst ` set (entries (txn s))" by force
  then show ?thesis
    by (simp add: commit_prepare_def Let_def split_def stage_pass_queued_any)
qed

lemma prepare_view:
  "view_of (snd (snd (commit_prepare x s))) =
     (view_of s)\<lparr>v_node := (\<lambda>m. qnode (msgs (snd (snd (commit_prepare x s))) m))\<rparr>"
  by (simp add: view_of_def prepare_slice)
     (simp add: commit_prepare_def Let_def split_def stage_pass_destination)

subsection \<open>The shape of the log of bus1\_transaction\_consume\<close>

lemma settled_nodes_simps [simp]:
  "settled_nodes [] = []"
  "settled_nodes (e # evs) = settled_node e @ settled_nodes evs"
  "settled_nodes (evs @ evs') = settled_nodes evs @ settled_nodes evs'"
  by (simp_all add: settled_nodes_def)

lemma enter_fst_nz: "ts \<noteq> 0 \<Longrightarrow> fst (consume_enter x m d ts s) = ts"
  by (simp add: enter_nz)

lemma enter_trace_exact:
  "\<exists>c. trace (snd (consume_enter x m d ts s)) = trace s @
     (Consume m d ts #
      (if ts = 0 then [MutexLock (peer (txn s)), QueueTick (peer (txn s)) c,
                       MutexUnlock (peer (txn s))] else []) @
      [HandleInstall m (raw_peer d)]) @
     [MutexLock (raw_peer d)] @
     (if ts = 0 then [QueueSync (raw_peer d) c,
                      QueueTick (raw_peer d) (fst (consume_enter x m d ts s))] else [])"
  by (simp add: consume_enter_def Let_def split_def mutex_lock_def
      bus1_handle_inflight_install_def tick_sender_trace sync_dest_trace)

lemma consume_under_lock:
  "\<exists>a before after z w.
     trace (snd (bus1_transaction_consume x m d ts s)) =
       trace s @ a @ [MutexLock (raw_peer d)] @ before @ after @
       [MutexUnlock (raw_peer d)] @ z \<and>
     \<not> list_ex is_store_or_stage a \<and> \<not> list_ex is_store_or_stage z \<and>
     \<not> list_ex is_lock_op (before @ after) \<and>
     staged_nodes before = [] \<and> \<not> list_ex is_put_user after \<and>
     settled_nodes a = [] \<and> settled_nodes before = [] \<and> settled_nodes z = [] \<and>
     (after = [QueueStage (raw_peer d) m (fst (consume_enter x m d ts s)) w] @
              (if w then [PeerWake (raw_peer d)] else []) \<or>
      after = [QueueRemove (raw_peer d) m w, MessageDeallocate m (raw_peer d)])"
proof -
  let ?p = "raw_peer d"
  let ?en = "consume_enter x m d ts s"
  let ?wb = "consume_writeback x m d (fst ?en) (snd ?en)"
  let ?ln = "consume_link x m ?p (fst (fst ?wb)) (fst ?en) (snd ?wb)"
  obtain c where en: "trace (snd ?en) = trace s @
     (Consume m d ts #
      (if ts = 0 then [MutexLock (peer (txn s)), QueueTick (peer (txn s)) c,
                       MutexUnlock (peer (txn s))] else []) @
      [HandleInstall m ?p]) @
     [MutexLock ?p] @
     (if ts = 0 then [QueueSync ?p c, QueueTick ?p (fst ?en)] else [])"
    (is "_ = _ @ ?a @ _ @ ?b1")
    using enter_trace_exact by blast
  obtain b2 where wb: "trace (snd ?wb) = trace (snd ?en) @ b2"
    "\<not> list_ex is_lock_op b2" "staged_nodes b2 = []" "settled_nodes b2 = []"
    by (simp add: writeback_trace)
  obtain w where ln: "trace (snd ?ln) = trace (snd ?wb) @
     (if fst (fst ?wb) \<noteq> BUS1_HANDLE_INVALID x then
        [QueueStage ?p m (fst ?en) w] @ (if w then [PeerWake ?p] else [])
      else [QueueRemove ?p m w, MessageDeallocate m ?p])"
    (is "_ = _ @ ?after")
    using link_trace by blast
  have t: "trace (snd (bus1_transaction_consume x m d ts s)) = trace (snd ?ln) @
     [MutexUnlock ?p] @ [MessageFree (snd (fst ?ln)) ?p, DestDestroy d]"
    (is "_ = _ @ _ @ ?z")
    by (simp add: bus1_transaction_consume_def Let_def split_def consume_tail_defs)
  show ?thesis
    apply (rule exI [of _ ?a], rule exI [of _ "?b1 @ b2"], rule exI [of _ ?after])
    apply (rule exI [of _ ?z], rule exI [of _ w])
    using en wb ln t by (simp add: is_store_or_stage_def)
qed



section \<open>Claims on the completion of the commit and on the write-back\<close>



text \<open>Claim C8 as amended. \<^verbatim>\<open>bus1_transaction_instantiate\<close> and
  \<^verbatim>\<open>bus1_transaction_instantiate_for_id\<close> store nothing to user memory: their log has no
  store and user memory is unchanged. The log of \<^verbatim>\<open>bus1_transaction_commit\<close> splits into
  a part without a store and without a call of \<^verbatim>\<open>bus1_transaction_consume\<close>, in which
  every entry is staged (the staging pass), and the commit pass, which starts with a
  call of \<^verbatim>\<open>bus1_transaction_consume\<close>: every store is in the commit pass, after every
  entry has been staged. Unless the final timestamp \<open>t0\<close> is \<open>0\<close>, the commit pass is the
  commit pass of the specification, operation by operation: per entry, under the
  destination's lock, the export of the id at \<open>t0\<close>, the store, and then the stage at
  \<open>t0\<close>. Every call of \<^verbatim>\<open>bus1_transaction_consume\<close>, with any timestamp \<open>ts\<close> and in any
  state, takes the lock of the destination, then performs its stores, then either
  stages the node at the value of its variable \<^verbatim>\<open>ts\<close> (which is \<open>ts\<close> unless \<open>ts\<close> is \<open>0\<close>)
  or removes it, and then releases the lock; between that acquisition and that
  release there is no other lock operation, and before and after them the call
  neither stores nor stages.\<close>

theorem id_written_only_in_commit_pass:
  "continues_without_store s (snd (snd (bus1_transaction_instantiate x oc a s))) \<and>
   umem (snd (snd (bus1_transaction_instantiate x oc a s))) = umem s \<and>
   continues_without_store s (snd (bus1_transaction_instantiate_for_id x oc a s)) \<and>
   umem (snd (bus1_transaction_instantiate_for_id x oc a s)) = umem s \<and>
   (\<exists>pre post. trace (snd (bus1_transaction_commit x c)) = trace c @ pre @ post \<and>
      \<not> list_ex is_put_user pre \<and> \<not> list_ex is_consume pre \<and>
      staged_nodes pre = map (\<lambda>(m, d). (m, raw_peer d)) (entries (txn c)) \<and>
      (post = [] \<or> is_consume (hd post)) \<and>
      filter is_consume post =
        map (\<lambda>(m, d). Consume m d (fst (snd (commit_prepare x c)))) (entries (txn c)) \<and>
      (fst (snd (commit_prepare x c)) \<noteq> 0 \<longrightarrow>
         (\<exists>queued answers f.
            (\<forall>(m, d) \<in> set (entries (txn c)). queued m \<noteq> None) \<and>
            length answers = length (entries (txn c)) \<and>
            spec_commit_pass (BUS1_HANDLE_INVALID x) (zip (entries (txn c)) answers)
                (fst (snd (commit_prepare x c))) ((view_of c)\<lparr>v_node := queued\<rparr>) =
              (post, f, view_of (snd (bus1_transaction_commit x c)))))) \<and>
   (\<exists>before_lock stores settle after_unlock w.
      trace (snd (bus1_transaction_consume x m d ts c')) =
        trace c' @ before_lock @ [MutexLock (raw_peer d)] @ stores @ settle @
        [MutexUnlock (raw_peer d)] @ after_unlock \<and>
      \<not> list_ex is_store_or_stage before_lock \<and>
      \<not> list_ex is_store_or_stage after_unlock \<and>
      \<not> list_ex is_lock_op (stores @ settle) \<and>
      staged_nodes stores = [] \<and> \<not> list_ex is_put_user settle \<and>
      (settle = [QueueStage (raw_peer d) m (fst (consume_enter x m d ts c')) w] @
                (if w then [PeerWake (raw_peer d)] else []) \<or>
       settle = [QueueRemove (raw_peer d) m w, MessageDeallocate m (raw_peer d)])) \<and>
   (ts \<noteq> 0 \<longrightarrow> fst (consume_enter x m d ts c') = ts)"
proof -
  let ?i = "bus1_transaction_instantiate x oc a s"
  have a1: "continues_without_store s (snd (snd ?i))" by (rule instantiate_trace)
  have a2: "umem (snd (snd ?i)) = umem s" by simp
  have d: "continues_without_store (snd (snd ?i)) (bus1_handle_dest_destroy (fst (snd ?i)) (snd (snd ?i)))"
    by (rule cws_events [of _ _ "[DestDestroy (fst (snd ?i))]"])
       (simp_all add: bus1_handle_dest_destroy_def)
  have b1: "continues_without_store s (snd (bus1_transaction_instantiate_for_id x oc a s))"
    using a1 cws_trans [OF a1 d]
    by (auto simp add: bus1_transaction_instantiate_for_id_def split_def Let_def
        continues_without_store_def split: sum.splits)
  have b2: "umem (snd (bus1_transaction_instantiate_for_id x oc a s)) = umem s"
    by (simp add: bus1_transaction_instantiate_for_id_def split_def Let_def
        bus1_handle_dest_destroy_def split: sum.splits)
  let ?t0 = "fst (snd (commit_prepare x c))" and ?s2 = "snd (snd (commit_prepare x c))"
  let ?es = "entries (txn c)"
  have c: "\<exists>pre post. trace (snd (bus1_transaction_commit x c)) = trace c @ pre @ post \<and>
      \<not> list_ex is_put_user pre \<and> \<not> list_ex is_consume pre \<and>
      staged_nodes pre = map (\<lambda>(m, d). (m, raw_peer d)) ?es \<and>
      (post = [] \<or> is_consume (hd post)) \<and>
      filter is_consume post = map (\<lambda>(m, d). Consume m d ?t0) ?es \<and>
      (?t0 \<noteq> 0 \<longrightarrow>
         (\<exists>queued answers f.
            (\<forall>(m, d) \<in> set ?es. queued m \<noteq> None) \<and> length answers = length ?es \<and>
            spec_commit_pass (BUS1_HANDLE_INVALID x) (zip ?es answers) ?t0
                ((view_of c)\<lparr>v_node := queued\<rparr>) =
              (post, f, view_of (snd (bus1_transaction_commit x c)))))"
  proof (cases "?es = []")
    case True
    have "(view_of c)\<lparr>v_node := \<lambda>m. qnode (msgs c m)\<rparr> = view_of c"
      by (simp add: view_of_def)
    then have "\<exists>queued f. spec_commit_pass (BUS1_HANDLE_INVALID x) [] ?t0
        ((view_of c)\<lparr>v_node := queued\<rparr>) = ([], f, view_of c)"
      by (intro exI [of _ "\<lambda>m. qnode (msgs c m)"] exI [of _ False]) simp
    then show ?thesis
      using True by (simp add: bus1_transaction_commit_def)
  next
    case False
    let ?r = "commit_consume_pass x ?es ?t0 0 ?s2"
    have u: "bus1_transaction_commit x c = ?r"
      using False by (rule commit_unfold)
    obtain pre where p: "trace ?s2 = trace c @ pre" "\<not> list_ex is_put_user pre"
      "\<not> list_ex is_consume pre" "staged_nodes pre = map (\<lambda>(m, d). (m, raw_peer d)) ?es"
      using prepare_log by blast
    obtain post where q: "trace (snd ?r) = trace ?s2 @ post"
      "filter is_consume post = map (\<lambda>(m, d). Consume m d ?t0) ?es"
      using consume_pass_log by blast
    obtain post' where q': "trace (snd ?r) = trace ?s2 @ post'" "is_consume (hd post')"
      using consume_pass_head [OF False] by blast
    from q(1) q'(1) have "post' = post" by simp
    with q' have h: "is_consume (hd post)" by simp
    have sp: "\<exists>queued answers f.
              (\<forall>(m, d) \<in> set ?es. queued m \<noteq> None) \<and> length answers = length ?es \<and>
              spec_commit_pass (BUS1_HANDLE_INVALID x) (zip ?es answers) ?t0
                  ((view_of c)\<lparr>v_node := queued\<rparr>) = (post, f, view_of (snd ?r))"
      if nz: "?t0 \<noteq> 0"
    proof -
      obtain answers evs f where
        a: "length answers = length ?es"
           "spec_commit_pass (BUS1_HANDLE_INVALID x) (zip ?es answers) ?t0 (view_of ?s2) =
              (evs, f, view_of (snd ?r))"
           "trace (snd ?r) = trace ?s2 @ evs"
        using consume_pass_spec [OF nz] by blast
      from q(1) a(3) have e: "evs = post" by simp
      have k: "\<forall>(m, d) \<in> set ?es. qnode (msgs ?s2 m) \<noteq> None"
        using prepare_queued_any by blast
      show ?thesis
        apply (rule exI [of _ "\<lambda>m. qnode (msgs ?s2 m)"], rule exI [of _ answers])
        apply (rule exI [of _ f])
        using a k unfolding e prepare_view [symmetric] by simp
    qed
    show ?thesis
      unfolding u
      by (rule exI [of _ pre], rule exI [of _ post]) (use p q h sp in simp)
  qed
  have e: "\<exists>before_lock stores settle after_unlock w.
      trace (snd (bus1_transaction_consume x m d ts c')) =
        trace c' @ before_lock @ [MutexLock (raw_peer d)] @ stores @ settle @
        [MutexUnlock (raw_peer d)] @ after_unlock \<and>
      \<not> list_ex is_store_or_stage before_lock \<and>
      \<not> list_ex is_store_or_stage after_unlock \<and>
      \<not> list_ex is_lock_op (stores @ settle) \<and>
      staged_nodes stores = [] \<and> \<not> list_ex is_put_user settle \<and>
      (settle = [QueueStage (raw_peer d) m (fst (consume_enter x m d ts c')) w] @
                (if w then [PeerWake (raw_peer d)] else []) \<or>
       settle = [QueueRemove (raw_peer d) m w, MessageDeallocate m (raw_peer d)])"
    using consume_under_lock [of x m d ts c'] by blast
  have f: "ts \<noteq> 0 \<longrightarrow> fst (consume_enter x m d ts c') = ts"
    by (simp add: enter_fst_nz)
  show ?thesis
    by (intro conjI a1 a2 b1 b2 c e f)
qed

text \<open>The instantiation of message 10 for peer 2, the commit that follows it, whose final
  timestamp is 4, and the call of \<^verbatim>\<open>bus1_transaction_consume\<close> of that commit.\<close>

theorem id_written_only_in_commit_pass_witness:
  "continues_without_store s0 (snd (bus1_transaction_instantiate_for_id x0 oc_ok 100 s0)) \<and>
   umem (snd (bus1_transaction_instantiate_for_id x0 oc_ok 100 s0)) 100 = Some 0 \<and>
   fst (snd (commit_prepare x0 s1)) = 4 \<and>
   (\<exists>pre post. trace (snd (bus1_transaction_commit x0 s1)) = trace s1 @ pre @ post \<and>
      \<not> list_ex is_put_user pre \<and> staged_nodes pre = [(10, 2)] \<and>
      (post = [] \<or> is_consume (hd post)) \<and> filter is_consume post = [Consume 10 dA 4] \<and>
      (\<exists>queued answers f.
         queued 10 \<noteq> None \<and> length answers = 1 \<and>
         spec_commit_pass (- 1) (zip [(10, dA)] answers) 4 ((view_of s1)\<lparr>v_node := queued\<rparr>) =
           (post, f, view_of (snd (bus1_transaction_commit x0 s1))))) \<and>
   (\<exists>before_lock stores settle after_unlock w.
      trace (snd (bus1_transaction_consume x0 10 dA 4 (snd (snd (commit_prepare x0 s1))))) =
        trace (snd (snd (commit_prepare x0 s1))) @ before_lock @ [MutexLock 2] @ stores @
        settle @ [MutexUnlock 2] @ after_unlock \<and>
      \<not> list_ex is_store_or_stage before_lock \<and>
      \<not> list_ex is_store_or_stage after_unlock \<and>
      \<not> list_ex is_lock_op (stores @ settle) \<and>
      staged_nodes stores = [] \<and> \<not> list_ex is_put_user settle \<and>
      (settle = [QueueStage 2 10 4 w] @ (if w then [PeerWake 2] else []) \<or>
       settle = [QueueRemove 2 10 w, MessageDeallocate 10 2]))"
proof -
  let ?c = "snd (snd (commit_prepare x0 s1))"
  let ?es = "[(10 :: nat, dA)]"
  have e: "entries (txn s1) = ?es" "raw_peer dA = 2" "umem s0 100 = Some 0"
    "BUS1_HANDLE_INVALID x0 = - 1"
    by (simp_all add: example_defs)
  have nz: "(4 :: u64) \<noteq> 0" by simp
  note th = id_written_only_in_commit_pass [of s0 x0 oc_ok 100 s1 10 dA 4 ?c,
      unfolded s1_prepare_ts e]
  note c3 = th [THEN conjunct2, THEN conjunct2, THEN conjunct1]
  note c4 = th [THEN conjunct2, THEN conjunct2, THEN conjunct2, THEN conjunct1]
  note r4 = th [THEN conjunct2, THEN conjunct2, THEN conjunct2, THEN conjunct2]
  note c5 = r4 [THEN conjunct1]
  note c6 = r4 [THEN conjunct2, THEN conjunct1]
  note c7 = r4 [THEN conjunct2, THEN conjunct2]
  from c7 nz have ts: "fst (consume_enter x0 10 dA 4 ?c) = 4" by blast
  from c4 have um: "umem (snd (bus1_transaction_instantiate_for_id x0 oc_ok 100 s0)) 100 = Some 0"
    by (simp add: e)
  from c5 obtain pre post where
    h: "trace (snd (bus1_transaction_commit x0 s1)) = trace s1 @ pre @ post"
       "\<not> list_ex is_put_user pre"
       "staged_nodes pre = map (\<lambda>(m, d). (m, raw_peer d)) ?es"
       "post = [] \<or> is_consume (hd post)"
       "filter is_consume post = map (\<lambda>(m, d). Consume m d 4) ?es"
       "(4 :: u64) \<noteq> 0 \<longrightarrow>
         (\<exists>queued answers f.
            (\<forall>(m, d) \<in> set ?es. queued m \<noteq> None) \<and> length answers = length ?es \<and>
            spec_commit_pass (- 1) (zip ?es answers) 4 ((view_of s1)\<lparr>v_node := queued\<rparr>) =
              (post, f, view_of (snd (bus1_transaction_commit x0 s1))))"
    by blast
  from h(6) nz obtain queued answers f where
    g: "\<forall>(m, d) \<in> set ?es. queued m \<noteq> None" "length answers = length ?es"
       "spec_commit_pass (- 1) (zip ?es answers) 4 ((view_of s1)\<lparr>v_node := queued\<rparr>) =
              (post, f, view_of (snd (bus1_transaction_commit x0 s1)))"
    by blast
  have sp: "\<exists>queued answers f.
         queued 10 \<noteq> None \<and> length answers = 1 \<and>
         spec_commit_pass (- 1) (zip ?es answers) 4 ((view_of s1)\<lparr>v_node := queued\<rparr>) =
           (post, f, view_of (snd (bus1_transaction_commit x0 s1)))"
    apply (rule exI [of _ queued], rule exI [of _ answers], rule exI [of _ f])
    using g by (simp del: spec_commit_pass.simps)
  have cm: "\<exists>pre post. trace (snd (bus1_transaction_commit x0 s1)) = trace s1 @ pre @ post \<and>
      \<not> list_ex is_put_user pre \<and> staged_nodes pre = [(10, 2)] \<and>
      (post = [] \<or> is_consume (hd post)) \<and> filter is_consume post = [Consume 10 dA 4] \<and>
      (\<exists>queued answers f.
         queued 10 \<noteq> None \<and> length answers = 1 \<and>
         spec_commit_pass (- 1) (zip ?es answers) 4 ((view_of s1)\<lparr>v_node := queued\<rparr>) =
           (post, f, view_of (snd (bus1_transaction_commit x0 s1))))"
    apply (rule exI [of _ pre], rule exI [of _ post])
    using h(1-5) sp by (simp add: e del: spec_commit_pass.simps)
  show ?thesis
    using c3 um s1_prepare_ts cm c6 [unfolded ts] by (intro conjI)
qed

end
